theory Spec2Isabelle
  imports Main "HOL-Library.Word" "HOL-Library.Extended_Nat"
begin

section \<open>Data model of src/lib/diff.ts\<close>

text \<open>
  A JavaScript string is a finite sequence of UTF-16 code units, and \<open>===\<close> on strings
  compares these sequences. A string is therefore a list of 16-bit words.
\<close>

type_synonym jsstring = "16 word list"

abbreviation LF :: "16 word" where "LF \<equiv> 0x0A"
abbreviation CR :: "16 word" where "CR \<equiv> 0x0D"

text \<open>The two string-literal union types of the source (\<open>DiffLine.type\<close>, \<open>CharDiff.type\<close>).\<close>

datatype DiffLineType = Equal | Insert | Delete | Modify

datatype CharDiffType = CEqual | CInsert | CDelete

text \<open>
  \<open>CharDiff = { type, text }\<close>. The field \<open>text\<close> is spelled \<open>text'\<close> because the plain
  name is reserved.
\<close>

record CharDiff =
  type :: CharDiffType
  text' :: jsstring

text \<open>
  \<open>DiffLine\<close>: every field but \<open>type\<close> is optional in the source; an absent field
  (\<open>undefined\<close>) is \<open>None\<close>.
\<close>

record DiffLine =
  type :: DiffLineType
  leftLine :: "jsstring option"
  rightLine :: "jsstring option"
  leftLineNumber :: "nat option"
  rightLineNumber :: "nat option"
  leftCharDiffs :: "CharDiff list option"
  rightCharDiffs :: "CharDiff list option"

section \<open>Line splitting\<close>

text \<open>\<open>text.replace(/\r\n?/g, "\n")\<close>: every CR, together with an LF directly after it, becomes one LF.\<close>

fun normalizeNewlines :: "jsstring \<Rightarrow> jsstring" where
  "normalizeNewlines [] = []"
| "normalizeNewlines [c] = (if c = CR then [LF] else [c])"
| "normalizeNewlines (c # d # ds) =
     (if c = CR \<and> d = LF then LF # normalizeNewlines ds
      else if c = CR then LF # normalizeNewlines (d # ds)
      else c # normalizeNewlines (d # ds))"

text \<open>
  \<open>String.prototype.split\<close> with a one-unit separator: \<open>cur\<close> is the piece being read;
  the last piece is always emitted, also when it is empty.
\<close>

fun split_on :: "16 word \<Rightarrow> jsstring \<Rightarrow> jsstring \<Rightarrow> jsstring list" where
  "split_on sep cur [] = [cur]"
| "split_on sep cur (c # cs) =
     (if c = sep then cur # split_on sep [] cs else split_on sep (cur @ [c]) cs)"

definition splitLines :: "jsstring \<Rightarrow> jsstring list" where
  "splitLines t = (if length t = 0 then [] else split_on LF [] t)"

section \<open>computeDiff\<close>

text \<open>
  \<open>rightLineMap\<close>: the \<open>forEach\<close> of lines 27-33. A line that is not yet a key is first
  mapped to the empty array, then the index is pushed.
\<close>

definition rightLineMap_add ::
  "(jsstring \<rightharpoonup> nat list) \<Rightarrow> jsstring \<times> nat \<Rightarrow> (jsstring \<rightharpoonup> nat list)" where
  "rightLineMap_add m p =
     (case p of (line, idx) \<Rightarrow>
        (let m1 = (if m line = None then m(line \<mapsto> []) else m)
         in case m1 line of Some xs \<Rightarrow> m1(line \<mapsto> xs @ [idx]) | None \<Rightarrow> m1))"

definition rightLineMap :: "jsstring list \<Rightarrow> (jsstring \<rightharpoonup> nat list)" where
  "rightLineMap rightLines =
     foldl rightLineMap_add Map.empty (zip rightLines [0..<length rightLines])"

text \<open>The mutable variables of the main loop (lines 24, 35-38).\<close>

record diff_state =
  result :: "DiffLine list"
  leftIndex :: nat
  rightIndex :: nat
  leftLineNum :: nat
  rightLineNum :: nat

text \<open>
  The four kinds of \<open>result.push\<close> with their counter updates. \<open>pushInsert\<close> is the block
  of lines 43-48 (again at 107-112 and 128-133), \<open>pushDelete\<close> that of 51-56 (again at
  119-124 and 138-143), \<open>pushEqual\<close> lines 59-67, \<open>pushModify\<close> lines 147-155.
\<close>

definition pushInsert :: "jsstring list \<Rightarrow> diff_state \<Rightarrow> diff_state" where
  "pushInsert rightLines st =
     st\<lparr> result := result st @
            [\<lparr> type = Insert, leftLine = None,
               rightLine = Some (rightLines ! rightIndex st),
               leftLineNumber = None, rightLineNumber = Some (rightLineNum st),
               leftCharDiffs = None, rightCharDiffs = None \<rparr>],
         rightIndex := rightIndex st + 1,
         rightLineNum := rightLineNum st + 1 \<rparr>"

definition pushDelete :: "jsstring list \<Rightarrow> diff_state \<Rightarrow> diff_state" where
  "pushDelete leftLines st =
     st\<lparr> result := result st @
            [\<lparr> type = Delete, leftLine = Some (leftLines ! leftIndex st),
               rightLine = None,
               leftLineNumber = Some (leftLineNum st), rightLineNumber = None,
               leftCharDiffs = None, rightCharDiffs = None \<rparr>],
         leftIndex := leftIndex st + 1,
         leftLineNum := leftLineNum st + 1 \<rparr>"

definition pushEqual :: "jsstring list \<Rightarrow> jsstring list \<Rightarrow> diff_state \<Rightarrow> diff_state" where
  "pushEqual leftLines rightLines st =
     st\<lparr> result := result st @
            [\<lparr> type = Equal, leftLine = Some (leftLines ! leftIndex st),
               rightLine = Some (rightLines ! rightIndex st),
               leftLineNumber = Some (leftLineNum st),
               rightLineNumber = Some (rightLineNum st),
               leftCharDiffs = None, rightCharDiffs = None \<rparr>],
         leftIndex := leftIndex st + 1,
         rightIndex := rightIndex st + 1,
         leftLineNum := leftLineNum st + 1,
         rightLineNum := rightLineNum st + 1 \<rparr>"

definition pushModify :: "jsstring list \<Rightarrow> jsstring list \<Rightarrow> diff_state \<Rightarrow> diff_state" where
  "pushModify leftLines rightLines st =
     st\<lparr> result := result st @
            [\<lparr> type = Modify, leftLine = Some (leftLines ! leftIndex st),
               rightLine = Some (rightLines ! rightIndex st),
               leftLineNumber = Some (leftLineNum st),
               rightLineNumber = Some (rightLineNum st),
               leftCharDiffs = None, rightCharDiffs = None \<rparr>],
         leftIndex := leftIndex st + 1,
         rightIndex := rightIndex st + 1,
         leftLineNum := leftLineNum st + 1,
         rightLineNum := rightLineNum st + 1 \<rparr>"

text \<open>
  Lines 74-85: the scan of \<open>possibleMatches\<close> for the closest index at or after
  \<open>rightIndex\<close>. \<open>bestMatch = -1\<close> is \<open>None\<close>, \<open>bestDistance = Infinity\<close> is \<open>\<infinity>\<close>.
\<close>

definition bestMatch_body :: "nat \<Rightarrow> nat option \<times> enat \<Rightarrow> nat \<Rightarrow> nat option \<times> enat" where
  "bestMatch_body rightIdx acc matchIdx =
     (case acc of (bestMatch, bestDistance) \<Rightarrow>
        if matchIdx \<ge> rightIdx then
          (let distance = matchIdx - rightIdx
           in if enat distance < bestDistance then (Some matchIdx, enat distance)
              else (bestMatch, bestDistance))
        else (bestMatch, bestDistance))"

definition findBestMatch :: "nat list \<Rightarrow> nat \<Rightarrow> nat option" where
  "findBestMatch possibleMatches rightIdx =
     fst (foldl (bestMatch_body rightIdx) (None, \<infinity>) possibleMatches)"

text \<open>
  Lines 89-99: the first \<open>i\<close> with \<open>leftIndex + 1 \<le> i < bound\<close> and
  \<open>leftLines[i] === currentRight\<close>, where \<open>bound = min(leftIndex + 20, leftLines.length)\<close>;
  \<open>leftMatch = -1\<close> is \<open>None\<close>.
\<close>

function findLeftMatch :: "jsstring list \<Rightarrow> jsstring \<Rightarrow> nat \<Rightarrow> nat \<Rightarrow> nat option" where
  "findLeftMatch leftLines currentRight bound i =
     (if i < bound then
        (if leftLines ! i = currentRight then Some i
         else findLeftMatch leftLines currentRight bound (i + 1))
      else None)"
  by pat_completeness auto
termination
  by (relation "measure (\<lambda>(leftLines, currentRight, bound, i). bound - i)") auto

declare findLeftMatch.simps [simp del]

text \<open>The inner \<open>while\<close> loops of lines 127-134 and 137-144.\<close>

function insertUntil :: "jsstring list \<Rightarrow> nat \<Rightarrow> diff_state \<Rightarrow> diff_state" where
  "insertUntil rightLines bestMatch st =
     (if rightIndex st < bestMatch
      then insertUntil rightLines bestMatch (pushInsert rightLines st)
      else st)"
  by pat_completeness auto
termination
  by (relation "measure (\<lambda>(rightLines, bestMatch, st). bestMatch - rightIndex st)")
     (auto simp: pushInsert_def)

declare insertUntil.simps [simp del]

function deleteUntil :: "jsstring list \<Rightarrow> nat \<Rightarrow> diff_state \<Rightarrow> diff_state" where
  "deleteUntil leftLines leftMatch st =
     (if leftIndex st < leftMatch
      then deleteUntil leftLines leftMatch (pushDelete leftLines st)
      else st)"
  by pat_completeness auto
termination
  by (relation "measure (\<lambda>(leftLines, leftMatch, st). leftMatch - leftIndex st)")
     (auto simp: pushDelete_def)

declare deleteUntil.simps [simp del]

text \<open>
  Lines 68-157: the branch taken when both sides have a line and the two lines differ.
  Every array read of the source is guarded by an index test, so no read is out of range.
\<close>

definition differ_branch :: "jsstring list \<Rightarrow> jsstring list \<Rightarrow> diff_state \<Rightarrow> diff_state" where
  "differ_branch leftLines rightLines st =
     (let currentLeft = leftLines ! leftIndex st;
          possibleMatches =
            (case rightLineMap rightLines currentLeft of Some xs \<Rightarrow> xs | None \<Rightarrow> []);
          bestMatch = findBestMatch possibleMatches (rightIndex st);
          currentRight = rightLines ! rightIndex st;
          leftMatch = findLeftMatch leftLines currentRight
                        (min (leftIndex st + 20) (length leftLines)) (leftIndex st + 1)
      in if bestMatch \<noteq> None \<and> bestMatch = Some (rightIndex st + 1) \<and> leftMatch = None
         then pushInsert rightLines st
         else if leftMatch \<noteq> None \<and> leftMatch = Some (leftIndex st + 1) \<and> bestMatch = None
         then pushDelete leftLines st
         else if (case bestMatch of Some b \<Rightarrow> b < rightIndex st + 10 | None \<Rightarrow> False)
         then (case bestMatch of Some b \<Rightarrow> insertUntil rightLines b st | None \<Rightarrow> st)
         else if (case leftMatch of Some l \<Rightarrow> l < leftIndex st + 10 | None \<Rightarrow> False)
         then (case leftMatch of Some l \<Rightarrow> deleteUntil leftLines l st | None \<Rightarrow> st)
         else pushModify leftLines rightLines st)"

text \<open>One iteration of the main \<open>while\<close> loop (the body, lines 41-157).\<close>

definition computeDiff_step :: "jsstring list \<Rightarrow> jsstring list \<Rightarrow> diff_state \<Rightarrow> diff_state" where
  "computeDiff_step leftLines rightLines st =
     (if leftIndex st \<ge> length leftLines then pushInsert rightLines st
      else if rightIndex st \<ge> length rightLines then pushDelete leftLines st
      else if leftLines ! leftIndex st = rightLines ! rightIndex st
      then pushEqual leftLines rightLines st
      else differ_branch leftLines rightLines st)"

text \<open>The variant of the main loop: the number of lines not yet consumed.\<close>

definition remaining :: "jsstring list \<Rightarrow> jsstring list \<Rightarrow> diff_state \<Rightarrow> nat" where
  "remaining leftLines rightLines st =
     (length leftLines - leftIndex st) + (length rightLines - rightIndex st)"

section \<open>Soundness of the look-ups\<close>

lemma rightLineMap_add_sound:
  assumes "\<And>k xs. m k = Some xs \<Longrightarrow> \<forall>i\<in>set xs. P k i" and "P (fst p) (snd p)"
    and "rightLineMap_add m p k = Some xs"
  shows "\<forall>i\<in>set xs. P k i"
  using assms
  by (cases p) (auto simp: rightLineMap_add_def Let_def split: if_splits option.splits)

lemma foldl_rightLineMap_add_sound:
  assumes "\<And>k xs. m k = Some xs \<Longrightarrow> \<forall>i\<in>set xs. P k i" and "\<forall>p\<in>set ps. P (fst p) (snd p)"
    and "foldl rightLineMap_add m ps k = Some xs"
  shows "\<forall>i\<in>set xs. P k i"
  using assms
proof (induction ps arbitrary: m k xs)
  case Nil
  then show ?case by simp
next
  case (Cons p ps)
  have step: "\<And>k xs. rightLineMap_add m p k = Some xs \<Longrightarrow> \<forall>i\<in>set xs. P k i"
    using rightLineMap_add_sound[of m P p] Cons.prems(1,2) by simp
  show ?case
    using Cons.IH[of "rightLineMap_add m p" k xs] step Cons.prems(2,3) by simp
qed

lemma rightLineMap_sound:
  assumes "rightLineMap rightLines k = Some xs" and "i \<in> set xs"
  shows "i < length rightLines \<and> rightLines ! i = k"
proof -
  have "\<forall>p\<in>set (zip rightLines [0..<length rightLines]). snd p < length rightLines \<and> rightLines ! snd p = fst p"
    by (auto simp: set_zip)
  from foldl_rightLineMap_add_sound[of Map.empty "\<lambda>k i. i < length rightLines \<and> rightLines ! i = k", OF _ this]
  show ?thesis using assms by (auto simp: rightLineMap_def)
qed

lemma foldl_bestMatch_sound:
  assumes "foldl (bestMatch_body r) acc xs = (Some b, d)"
  shows "(b \<in> set xs \<and> r \<le> b) \<or> fst acc = Some b"
  using assms
proof (induction xs arbitrary: acc)
  case Nil
  then show ?case by simp
next
  case (Cons x xs)
  from Cons.IH[OF Cons.prems[simplified]]
  show ?case
    by (cases acc) (auto simp: bestMatch_body_def Let_def split: if_splits)
qed

lemma findBestMatch_sound:
  assumes "findBestMatch xs r = Some b"
  shows "b \<in> set xs \<and> r \<le> b"
proof -
  obtain d where "foldl (bestMatch_body r) (None, \<infinity>) xs = (Some b, d)"
    using assms by (cases "foldl (bestMatch_body r) (None, \<infinity>) xs") (auto simp: findBestMatch_def)
  from foldl_bestMatch_sound[OF this] show ?thesis by simp
qed

lemma findLeftMatch_sound:
  "findLeftMatch leftLines cr bound i = Some l \<Longrightarrow> i \<le> l \<and> l < bound \<and> leftLines ! l = cr"
proof (induction leftLines cr bound i rule: findLeftMatch.induct)
  case (1 leftLines currentRight bound i)
  from "1.prems" have lt: "i < bound"
    by (subst (asm) findLeftMatch.simps) (simp split: if_splits)
  show ?case
  proof (cases "leftLines ! i = currentRight")
    case True
    with lt "1.prems" show ?thesis
      by (subst (asm) findLeftMatch.simps) simp
  next
    case False
    with lt "1.prems" have "findLeftMatch leftLines currentRight bound (i + 1) = Some l"
      by (subst (asm) findLeftMatch.simps) simp
    from "1.IH"[OF lt False this] show ?thesis by simp
  qed
qed

section \<open>Progress of the main loop\<close>

text \<open>
  Every iteration of the main loop is a non-empty sequence of the four pushes, each
  taken under the guard the source tests before it. \<open>push_step\<close> is that single
  guarded push; the invariants of the loop are proved once for it.
\<close>

inductive push_step :: "jsstring list \<Rightarrow> jsstring list \<Rightarrow> diff_state \<Rightarrow> diff_state \<Rightarrow> bool"
  for leftLines rightLines where
  ps_insert: "rightIndex s < length rightLines \<Longrightarrow>
     push_step leftLines rightLines s (pushInsert rightLines s)"
| ps_delete: "leftIndex s < length leftLines \<Longrightarrow>
     push_step leftLines rightLines s (pushDelete leftLines s)"
| ps_equal: "leftIndex s < length leftLines \<Longrightarrow> rightIndex s < length rightLines \<Longrightarrow>
     leftLines ! leftIndex s = rightLines ! rightIndex s \<Longrightarrow>
     push_step leftLines rightLines s (pushEqual leftLines rightLines s)"
| ps_modify: "leftIndex s < length leftLines \<Longrightarrow> rightIndex s < length rightLines \<Longrightarrow>
     leftLines ! leftIndex s \<noteq> rightLines ! rightIndex s \<Longrightarrow>
     push_step leftLines rightLines s (pushModify leftLines rightLines s)"

lemma insertUntil_pushes:
  "rightIndex st < b \<Longrightarrow> b \<le> length R \<Longrightarrow> (push_step L R)\<^sup>+\<^sup>+ st (insertUntil R b st)"
proof (induction R b st rule: insertUntil.induct)
  case (1 R b st)
  have one: "push_step L R st (pushInsert R st)"
    using "1.prems" by (intro ps_insert) simp
  show ?case
  proof (cases "rightIndex (pushInsert R st) < b")
    case True
    from "1.IH"[OF "1.prems"(1) True "1.prems"(2)] one
    have "(push_step L R)\<^sup>+\<^sup>+ st (insertUntil R b (pushInsert R st))" by simp
    then show ?thesis using "1.prems"(1) by (subst insertUntil.simps) simp
  next
    case False
    then have "insertUntil R b (pushInsert R st) = pushInsert R st"
      by (subst insertUntil.simps) simp
    then show ?thesis using one "1.prems"(1) by (subst insertUntil.simps) auto
  qed
qed

lemma deleteUntil_pushes:
  "leftIndex st < b \<Longrightarrow> b \<le> length L \<Longrightarrow> (push_step L R)\<^sup>+\<^sup>+ st (deleteUntil L b st)"
proof (induction L b st rule: deleteUntil.induct)
  case (1 L b st)
  have one: "push_step L R st (pushDelete L st)"
    using "1.prems" by (intro ps_delete) simp
  show ?case
  proof (cases "leftIndex (pushDelete L st) < b")
    case True
    from "1.IH"[OF "1.prems"(1) True "1.prems"(2)] one
    have "(push_step L R)\<^sup>+\<^sup>+ st (deleteUntil L b (pushDelete L st))" by simp
    then show ?thesis using "1.prems"(1) by (subst deleteUntil.simps) simp
  next
    case False
    then have "deleteUntil L b (pushDelete L st) = pushDelete L st"
      by (subst deleteUntil.simps) simp
    then show ?thesis using one "1.prems"(1) by (subst deleteUntil.simps) auto
  qed
qed

lemma bestMatch_range:
  assumes "findBestMatch (case rightLineMap R (L ! li) of Some xs \<Rightarrow> xs | None \<Rightarrow> []) ri = Some b"
    and "L ! li \<noteq> R ! ri"
  shows "ri < b \<and> b < length R"
proof -
  from findBestMatch_sound[OF assms(1)]
  have mem: "b \<in> set (case rightLineMap R (L ! li) of Some xs \<Rightarrow> xs | None \<Rightarrow> [])" and ge: "ri \<le> b"
    by simp_all
  from mem obtain xs where "rightLineMap R (L ! li) = Some xs" "b \<in> set xs"
    by (cases "rightLineMap R (L ! li)") auto
  from rightLineMap_sound[OF this] have "b < length R" "R ! b = L ! li" by simp_all
  with assms(2) ge show ?thesis by (cases "b = ri") auto
qed

lemma differ_branch_pushes:
  assumes "leftIndex st < length L" "rightIndex st < length R"
    and "L ! leftIndex st \<noteq> R ! rightIndex st"
  shows "(push_step L R)\<^sup>+\<^sup>+ st (differ_branch L R st)"
proof -
  define bm where "bm = findBestMatch (case rightLineMap R (L ! leftIndex st) of Some xs \<Rightarrow> xs | None \<Rightarrow> []) (rightIndex st)"
  define lm where "lm = findLeftMatch L (R ! rightIndex st) (min (leftIndex st + 20) (length L)) (leftIndex st + 1)"
  have bmr: "\<And>b. bm = Some b \<Longrightarrow> rightIndex st < b \<and> b \<le> length R"
    using bestMatch_range[OF _ assms(3)] unfolding bm_def by fastforce
  have lmr: "\<And>l. lm = Some l \<Longrightarrow> leftIndex st < l \<and> l \<le> length L"
    using findLeftMatch_sound unfolding lm_def by fastforce
  have ins: "(push_step L R)\<^sup>+\<^sup>+ st (pushInsert R st)"
    using assms by (intro tranclp.r_into_trancl ps_insert)
  have del: "(push_step L R)\<^sup>+\<^sup>+ st (pushDelete L st)"
    using assms by (intro tranclp.r_into_trancl ps_delete)
  have mod: "(push_step L R)\<^sup>+\<^sup>+ st (pushModify L R st)"
    using assms by (intro tranclp.r_into_trancl ps_modify)
  have iu: "\<And>b. bm = Some b \<Longrightarrow> (push_step L R)\<^sup>+\<^sup>+ st (insertUntil R b st)"
    using bmr insertUntil_pushes by blast
  have du: "\<And>l. lm = Some l \<Longrightarrow> (push_step L R)\<^sup>+\<^sup>+ st (deleteUntil L l st)"
    using lmr deleteUntil_pushes by blast
  have "differ_branch L R st =
     (if bm \<noteq> None \<and> bm = Some (rightIndex st + 1) \<and> lm = None
         then pushInsert R st
         else if lm \<noteq> None \<and> lm = Some (leftIndex st + 1) \<and> bm = None
         then pushDelete L st
         else if (case bm of Some b \<Rightarrow> b < rightIndex st + 10 | None \<Rightarrow> False)
         then (case bm of Some b \<Rightarrow> insertUntil R b st | None \<Rightarrow> st)
         else if (case lm of Some l \<Rightarrow> l < leftIndex st + 10 | None \<Rightarrow> False)
         then (case lm of Some l \<Rightarrow> deleteUntil L l st | None \<Rightarrow> st)
         else pushModify L R st)"
    unfolding differ_branch_def bm_def lm_def Let_def by (rule refl)
  then show ?thesis
    using ins del mod iu du by (auto split: option.splits)
qed

lemma computeDiff_step_pushes:
  assumes "leftIndex st < length L \<or> rightIndex st < length R"
  shows "(push_step L R)\<^sup>+\<^sup>+ st (computeDiff_step L R st)"
  using assms differ_branch_pushes[of st L R]
  by (auto simp: computeDiff_step_def intro!: tranclp.r_into_trancl push_step.intros)

lemma push_step_remaining:
  "push_step L R s t \<Longrightarrow> remaining L R t < remaining L R s"
  by (induction rule: push_step.induct)
     (auto simp: remaining_def pushInsert_def pushDelete_def pushEqual_def pushModify_def)

lemma pushes_remaining:
  "(push_step L R)\<^sup>+\<^sup>+ s t \<Longrightarrow> remaining L R t < remaining L R s"
  by (induction rule: tranclp.induct) (auto dest: push_step_remaining)

lemma computeDiff_step_remaining:
  "leftIndex st < length L \<or> rightIndex st < length R \<Longrightarrow>
   remaining L R (computeDiff_step L R st) < remaining L R st"
  by (rule pushes_remaining[OF computeDiff_step_pushes])

text \<open>The main \<open>while\<close> loop (line 40) and the entry point.\<close>

function computeDiff_loop :: "jsstring list \<Rightarrow> jsstring list \<Rightarrow> diff_state \<Rightarrow> diff_state" where
  "computeDiff_loop leftLines rightLines st =
     (if leftIndex st < length leftLines \<or> rightIndex st < length rightLines
      then computeDiff_loop leftLines rightLines (computeDiff_step leftLines rightLines st)
      else st)"
  by pat_completeness auto
termination
  by (relation "measure (\<lambda>(leftLines, rightLines, st). remaining leftLines rightLines st)")
     (auto simp: computeDiff_step_remaining)

declare computeDiff_loop.simps [simp del]

definition computeDiff :: "jsstring \<Rightarrow> jsstring \<Rightarrow> DiffLine list" where
  "computeDiff left right =
     (let leftLines = splitLines (normalizeNewlines left);
          rightLines = splitLines (normalizeNewlines right)
      in result (computeDiff_loop leftLines rightLines
           \<lparr> result = [], leftIndex = 0, rightIndex = 0, leftLineNum = 1, rightLineNum = 1 \<rparr>))"

section \<open>Token-level diff of a modified line\<close>

text \<open>
  The class \<open>\s\<close> of an ECMAScript regular expression without the \<open>u\<close> flag, on code
  units: the white-space and line-terminator code points. \<open>\S\<close> is its complement.
\<close>

definition isWhitespace :: "16 word \<Rightarrow> bool" where
  "isWhitespace c =
     (c \<in> set [0x09, 0x0A, 0x0B, 0x0C, 0x0D, 0x20, 0xA0, 0x1680, 0x2028, 0x2029,
                0x202F, 0x205F, 0x3000, 0xFEFF]
      \<or> (0x2000 \<le> c \<and> c \<le> 0x200A))"

text \<open>
  The \<open>exec\<close> loop of \<open>tokenize\<close> (lines 183-195). \<open>rest\<close> is \<open>text.substring(lastIndex)\<close>.
  \<open>/\S+/g\<close> matches the first maximal run of non-white-space at or after \<open>lastIndex\<close>:
  \<open>ws\<close> is the white space skipped before it, \<open>word\<close> the match. When there is no match
  the loop ends and the remaining white space, if any, is pushed.
\<close>

function tokenize_loop :: "jsstring \<Rightarrow> jsstring list \<Rightarrow> jsstring list" where
  "tokenize_loop rest tokens =
     (let ws = takeWhile isWhitespace rest;
          tl_rest = dropWhile isWhitespace rest
      in if tl_rest = [] then (if rest \<noteq> [] then tokens @ [rest] else tokens)
         else
           (let word = takeWhile (\<lambda>c. \<not> isWhitespace c) tl_rest;
                tokens1 = (if ws \<noteq> [] then tokens @ [ws] else tokens)
            in tokenize_loop (dropWhile (\<lambda>c. \<not> isWhitespace c) tl_rest) (tokens1 @ [word])))"
  by pat_completeness auto
termination
proof (relation "measure (\<lambda>(rest, tokens). length rest)")
  show "wf (measure (\<lambda>(rest, tokens). length rest))" by simp
next
  fix rest :: jsstring and tokens :: "jsstring list" and x xa xb xc
  assume tl: "xa = dropWhile isWhitespace rest" and ne: "xa \<noteq> []"
  from ne obtain c cs where xa: "xa = c # cs" by (cases xa) auto
  have "dropWhile isWhitespace rest \<noteq> []"
    using ne tl by blast
  then have "\<not> isWhitespace (hd (dropWhile isWhitespace rest))"
    by (rule hd_dropWhile)
  then have "\<not> isWhitespace c"
    using tl xa by (metis list.sel(1))
  then have "dropWhile (\<lambda>c. \<not> isWhitespace c) xa = dropWhile (\<lambda>c. \<not> isWhitespace c) cs"
    using xa by simp
  moreover have "length (dropWhile (\<lambda>c. \<not> isWhitespace c) cs) \<le> length cs"
    by (rule length_dropWhile_le)
  moreover have "length xa \<le> length rest"
    unfolding tl by (rule length_dropWhile_le)
  ultimately have "length (dropWhile (\<lambda>c. \<not> isWhitespace c) xa) < length rest"
    using xa by simp
  then show "((dropWhile (\<lambda>c. \<not> isWhitespace c) xa, xc @ [xb]), rest, tokens)
        \<in> measure (\<lambda>(rest, tokens). length rest)"
    by simp
qed

declare tokenize_loop.simps [simp del]

definition tokenize :: "jsstring \<Rightarrow> jsstring list" where
  "tokenize t = (let tokens = tokenize_loop t [] in if length tokens > 0 then tokens else [t])"

text \<open>
  The block the source repeats at every push of a span (lines 220-231, 235-242, 246-265,
  289-300, 308-319, 327-350): when the last span of the array has the kind being pushed,
  its text is extended in place, otherwise a new span is pushed.
\<close>

definition appendCharDiff :: "CharDiff list \<Rightarrow> CharDiffType \<Rightarrow> jsstring \<Rightarrow> CharDiff list" where
  "appendCharDiff arr ty tok =
     (if length arr > 0 \<and> CharDiff.type (arr ! (length arr - 1)) = ty
      then arr[length arr - 1 :=
                 (arr ! (length arr - 1))\<lparr> text' := text' (arr ! (length arr - 1)) @ tok \<rparr>]
      else arr @ [\<lparr> CharDiff.type = ty, text' = tok \<rparr>])"

text \<open>
  The variables of \<open>computeCharDiff\<close>: \<open>result.left\<close>, \<open>result.right\<close>, \<open>leftIdx\<close>,
  \<open>rightIdx\<close>. The field \<open>matched\<close> is not in the source: it records, for the statements
  about matched tokens, the index pairs at which the branch "tokens match" (line 244) is
  taken. No other field depends on it.
\<close>

record char_state =
  result_left :: "CharDiff list"
  result_right :: "CharDiff list"
  leftIdx :: nat
  rightIdx :: nat
  matched :: "(nat \<times> nat) list"

definition pushCInsert :: "jsstring list \<Rightarrow> char_state \<Rightarrow> char_state" where
  "pushCInsert rightTokens st =
     st\<lparr> result_right := appendCharDiff (result_right st) CInsert (rightTokens ! rightIdx st),
         rightIdx := rightIdx st + 1 \<rparr>"

definition pushCDelete :: "jsstring list \<Rightarrow> char_state \<Rightarrow> char_state" where
  "pushCDelete leftTokens st =
     st\<lparr> result_left := appendCharDiff (result_left st) CDelete (leftTokens ! leftIdx st),
         leftIdx := leftIdx st + 1 \<rparr>"

definition pushCEqual :: "jsstring list \<Rightarrow> jsstring list \<Rightarrow> char_state \<Rightarrow> char_state" where
  "pushCEqual leftTokens rightTokens st =
     st\<lparr> result_left := appendCharDiff (result_left st) CEqual (leftTokens ! leftIdx st),
         result_right := appendCharDiff (result_right st) CEqual (rightTokens ! rightIdx st),
         leftIdx := leftIdx st + 1,
         rightIdx := rightIdx st + 1,
         matched := matched st @ [(leftIdx st, rightIdx st)] \<rparr>"

definition pushCModify :: "jsstring list \<Rightarrow> jsstring list \<Rightarrow> char_state \<Rightarrow> char_state" where
  "pushCModify leftTokens rightTokens st =
     st\<lparr> result_left := appendCharDiff (result_left st) CDelete (leftTokens ! leftIdx st),
         result_right := appendCharDiff (result_right st) CInsert (rightTokens ! rightIdx st),
         leftIdx := leftIdx st + 1,
         rightIdx := rightIdx st + 1 \<rparr>"

text \<open>
  The \<open>for\<close> loop of lines 279-323 over \<open>lookAhead\<close>, with the flag \<open>foundMatch\<close> as the
  second component of its state. The body tests the left side first.
\<close>

definition lookAhead_body ::
  "jsstring list \<Rightarrow> jsstring list \<Rightarrow> nat \<Rightarrow> char_state \<times> bool \<Rightarrow> char_state \<times> bool" where
  "lookAhead_body leftTokens rightTokens lookAhead sf =
     (case sf of (st, foundMatch) \<Rightarrow>
        if leftIdx st + lookAhead < length leftTokens \<and>
           leftTokens ! (leftIdx st + lookAhead) = rightTokens ! rightIdx st
        then (pushCDelete leftTokens st, True)
        else if rightIdx st + lookAhead < length rightTokens \<and>
                leftTokens ! leftIdx st = rightTokens ! (rightIdx st + lookAhead)
        then (pushCInsert rightTokens st, True)
        else (st, foundMatch))"

function lookAhead_loop ::
  "jsstring list \<Rightarrow> jsstring list \<Rightarrow> nat \<Rightarrow> nat \<Rightarrow> char_state \<times> bool \<Rightarrow> char_state \<times> bool" where
  "lookAhead_loop leftTokens rightTokens maxLookAhead lookAhead sf =
     (if lookAhead \<le> maxLookAhead \<and> \<not> snd sf
      then lookAhead_loop leftTokens rightTokens maxLookAhead (lookAhead + 1)
             (lookAhead_body leftTokens rightTokens lookAhead sf)
      else sf)"
  by pat_completeness auto
termination
  by (relation "measure (\<lambda>(leftTokens, rightTokens, maxLookAhead, lookAhead, sf).
                           maxLookAhead + 1 - lookAhead)") auto

declare lookAhead_loop.simps [simp del]

text \<open>One iteration of the \<open>while\<close> loop of \<open>computeCharDiff\<close> (the body, lines 218-354).\<close>

definition computeCharDiff_step :: "jsstring list \<Rightarrow> jsstring list \<Rightarrow> char_state \<Rightarrow> char_state" where
  "computeCharDiff_step leftTokens rightTokens st =
     (if leftIdx st \<ge> length leftTokens then pushCInsert rightTokens st
      else if rightIdx st \<ge> length rightTokens then pushCDelete leftTokens st
      else if leftTokens ! leftIdx st = rightTokens ! rightIdx st
      then pushCEqual leftTokens rightTokens st
      else
        (let maxLookAhead = min 10 (max (length leftTokens - leftIdx st)
                                        (length rightTokens - rightIdx st));
             sf = lookAhead_loop leftTokens rightTokens maxLookAhead 1 (st, False)
         in if \<not> snd sf then pushCModify leftTokens rightTokens (fst sf) else fst sf))"

definition remainingTokens :: "jsstring list \<Rightarrow> jsstring list \<Rightarrow> char_state \<Rightarrow> nat" where
  "remainingTokens leftTokens rightTokens st =
     (length leftTokens - leftIdx st) + (length rightTokens - rightIdx st)"

text \<open>
  Every iteration of the token loop is exactly one of four pushes, taken under the guard
  the source tests before it.
\<close>

inductive cpush_step :: "jsstring list \<Rightarrow> jsstring list \<Rightarrow> char_state \<Rightarrow> char_state \<Rightarrow> bool"
  for leftTokens rightTokens where
  cps_insert: "rightIdx s < length rightTokens \<Longrightarrow>
     cpush_step leftTokens rightTokens s (pushCInsert rightTokens s)"
| cps_delete: "leftIdx s < length leftTokens \<Longrightarrow>
     cpush_step leftTokens rightTokens s (pushCDelete leftTokens s)"
| cps_equal: "leftIdx s < length leftTokens \<Longrightarrow> rightIdx s < length rightTokens \<Longrightarrow>
     leftTokens ! leftIdx s = rightTokens ! rightIdx s \<Longrightarrow>
     cpush_step leftTokens rightTokens s (pushCEqual leftTokens rightTokens s)"
| cps_modify: "leftIdx s < length leftTokens \<Longrightarrow> rightIdx s < length rightTokens \<Longrightarrow>
     cpush_step leftTokens rightTokens s (pushCModify leftTokens rightTokens s)"

lemma lookAhead_loop_found: "snd sf \<Longrightarrow> lookAhead_loop L R m la sf = sf"
  by (subst lookAhead_loop.simps) simp

lemma lookAhead_loop_result:
  "\<not> snd sf \<Longrightarrow>
   lookAhead_loop L R m la sf = sf \<or>
   lookAhead_loop L R m la sf = (pushCDelete L (fst sf), True) \<or>
   lookAhead_loop L R m la sf = (pushCInsert R (fst sf), True)"
proof (induction L R m la sf rule: lookAhead_loop.induct)
  case (1 L R m la sf)
  show ?case
  proof (cases "la \<le> m")
    case False
    then show ?thesis by (subst lookAhead_loop.simps) simp
  next
    case True
    have unf: "lookAhead_loop L R m la sf = lookAhead_loop L R m (la + 1) (lookAhead_body L R la sf)"
      using True "1.prems" by (subst lookAhead_loop.simps) simp
    have "lookAhead_body L R la sf = sf
      \<or> lookAhead_body L R la sf = (pushCDelete L (fst sf), True)
      \<or> lookAhead_body L R la sf = (pushCInsert R (fst sf), True)"
      by (cases sf) (simp add: lookAhead_body_def)
    then consider (same) "lookAhead_body L R la sf = sf"
      | (del) "lookAhead_body L R la sf = (pushCDelete L (fst sf), True)"
      | (ins) "lookAhead_body L R la sf = (pushCInsert R (fst sf), True)"
      by blast
    then show ?thesis
    proof cases
      case same
      with "1.IH" True "1.prems" unf show ?thesis by simp
    next
      case del
      then show ?thesis using unf by (simp add: lookAhead_loop_found)
    next
      case ins
      then show ?thesis using unf by (simp add: lookAhead_loop_found)
    qed
  qed
qed

lemma computeCharDiff_step_push:
  assumes "leftIdx st < length L \<or> rightIdx st < length R"
  shows "cpush_step L R st (computeCharDiff_step L R st)"
proof -
  consider (a) "leftIdx st \<ge> length L" | (b) "leftIdx st < length L" "rightIdx st \<ge> length R"
    | (c) "leftIdx st < length L" "rightIdx st < length R" "L ! leftIdx st = R ! rightIdx st"
    | (d) "leftIdx st < length L" "rightIdx st < length R" "L ! leftIdx st \<noteq> R ! rightIdx st"
    by linarith
  then show ?thesis
  proof cases
    case a
    then show ?thesis using assms by (auto simp: computeCharDiff_step_def intro: cps_insert)
  next
    case b
    then show ?thesis by (auto simp: computeCharDiff_step_def intro: cps_delete)
  next
    case c
    then show ?thesis by (auto simp: computeCharDiff_step_def intro: cps_equal)
  next
    case d
    define m where "m = min 10 (max (length L - leftIdx st) (length R - rightIdx st))"
    define sf where "sf = lookAhead_loop L R m 1 (st, False)"
    have step: "computeCharDiff_step L R st = (if \<not> snd sf then pushCModify L R (fst sf) else fst sf)"
      using d by (simp add: computeCharDiff_step_def Let_def sf_def m_def)
    from lookAhead_loop_result[of "(st, False)" L R m 1]
    consider "sf = (st, False)" | "sf = (pushCDelete L st, True)" | "sf = (pushCInsert R st, True)"
      unfolding sf_def by auto
    then show ?thesis
      using d step by cases (auto intro: cpush_step.intros)
  qed
qed

lemma cpush_step_remaining:
  "cpush_step L R s t \<Longrightarrow> remainingTokens L R t < remainingTokens L R s"
  by (induction rule: cpush_step.induct)
     (auto simp: remainingTokens_def pushCInsert_def pushCDelete_def pushCEqual_def pushCModify_def)

lemma computeCharDiff_step_remaining:
  "leftIdx st < length L \<or> rightIdx st < length R \<Longrightarrow>
   remainingTokens L R (computeCharDiff_step L R st) < remainingTokens L R st"
  by (rule cpush_step_remaining[OF computeCharDiff_step_push])

text \<open>The \<open>while\<close> loop of line 217 and \<open>computeCharDiff\<close> itself.\<close>

function computeCharDiff_loop :: "jsstring list \<Rightarrow> jsstring list \<Rightarrow> char_state \<Rightarrow> char_state" where
  "computeCharDiff_loop leftTokens rightTokens st =
     (if leftIdx st < length leftTokens \<or> rightIdx st < length rightTokens
      then computeCharDiff_loop leftTokens rightTokens
             (computeCharDiff_step leftTokens rightTokens st)
      else st)"
  by pat_completeness auto
termination
  by (relation "measure (\<lambda>(leftTokens, rightTokens, st).
                           remainingTokens leftTokens rightTokens st)")
     (auto simp: computeCharDiff_step_remaining)

declare computeCharDiff_loop.simps [simp del]

definition computeCharDiff_run :: "jsstring \<Rightarrow> jsstring \<Rightarrow> char_state" where
  "computeCharDiff_run left right =
     computeCharDiff_loop (tokenize left) (tokenize right)
       \<lparr> result_left = [], result_right = [], leftIdx = 0, rightIdx = 0, matched = [] \<rparr>"

text \<open>The returned object \<open>{ left, right }\<close> as a pair.\<close>

definition computeCharDiff :: "jsstring \<Rightarrow> jsstring \<Rightarrow> CharDiff list \<times> CharDiff list" where
  "computeCharDiff left right =
     (let st = computeCharDiff_run left right in (result_left st, result_right st))"

text \<open>The index pairs of the tokens that \<open>computeCharDiff\<close> treats as equal.\<close>

definition matchedPairs :: "jsstring \<Rightarrow> jsstring \<Rightarrow> (nat \<times> nat) list" where
  "matchedPairs left right = matched (computeCharDiff_run left right)"

section \<open>enhanceWithCharDiffs\<close>

text \<open>
  The truth value JavaScript gives an optional string in a condition: \<open>undefined\<close> and
  the empty string are false.
\<close>

definition truthy :: "jsstring option \<Rightarrow> bool" where
  "truthy s = (case s of None \<Rightarrow> False | Some t \<Rightarrow> t \<noteq> [])"

definition enhanceLine :: "DiffLine \<Rightarrow> DiffLine" where
  "enhanceLine line =
     (if type line = Modify \<and> truthy (leftLine line) \<and> truthy (rightLine line) then
        (let charDiff = computeCharDiff (the (leftLine line)) (the (rightLine line))
         in line\<lparr> leftCharDiffs := Some (fst charDiff),
                  rightCharDiffs := Some (snd charDiff) \<rparr>)
      else line)"

definition enhanceWithCharDiffs :: "DiffLine list \<Rightarrow> DiffLine list" where
  "enhanceWithCharDiffs diffLines = map enhanceLine diffLines"

text \<open>An ASCII literal as a string of code units, for the concrete inputs below.\<close>

definition str :: "string \<Rightarrow> jsstring" where
  "str s = map (\<lambda>c. of_nat (of_char c)) s"

section \<open>Concrete runs of computeDiff\<close>

lemma normalizeNewlines_no_CR: "CR \<notin> set (normalizeNewlines t)"
  by (induction t rule: normalizeNewlines.induct) auto

lemma normalizeNewlines_id: "CR \<notin> set t \<Longrightarrow> normalizeNewlines t = t"
  by (induction t rule: normalizeNewlines.induct) auto

lemma normalizeNewlines_idem: "normalizeNewlines (normalizeNewlines t) = normalizeNewlines t"
  by (rule normalizeNewlines_id[OF normalizeNewlines_no_CR])

lemma computeDiff_normalized:
  "computeDiff (normalizeNewlines left) (normalizeNewlines right) = computeDiff left right"
  by (simp add: computeDiff_def normalizeNewlines_idem)

lemma crlf_example:
  "computeDiff (str ''a'' @ [CR, LF] @ str ''b'' @ [CR, LF] @ str ''c'' @ [CR, LF])
               (str ''a\<newline>b\<newline>c\<newline>'') =
     [\<lparr> type = Equal, leftLine = Some (str ''a''), rightLine = Some (str ''a''),
        leftLineNumber = Some 1, rightLineNumber = Some 1,
        leftCharDiffs = None, rightCharDiffs = None \<rparr>,
      \<lparr> type = Equal, leftLine = Some (str ''b''), rightLine = Some (str ''b''),
        leftLineNumber = Some 2, rightLineNumber = Some 2,
        leftCharDiffs = None, rightCharDiffs = None \<rparr>,
      \<lparr> type = Equal, leftLine = Some (str ''c''), rightLine = Some (str ''c''),
        leftLineNumber = Some 3, rightLineNumber = Some 3,
        leftCharDiffs = None, rightCharDiffs = None \<rparr>,
      \<lparr> type = Equal, leftLine = Some [], rightLine = Some [],
        leftLineNumber = Some 4, rightLineNumber = Some 4,
        leftCharDiffs = None, rightCharDiffs = None \<rparr>]"
  by code_simp

text \<open>
  Claim C7. \<open>computeDiff\<close> normalizes CR LF and a lone CR to LF in both inputs before
  splitting: its result is that of the normalized inputs, which contain no CR. Diffing
  \<open>"a\r\nb\r\nc\r\n"\<close> against \<open>"a\nb\nc\n"\<close> yields four Equal records, the last one
  pairing the empty lines after the final newline.
\<close>

theorem computeDiff_newline_normalization:
  "computeDiff (normalizeNewlines left) (normalizeNewlines right) = computeDiff left right
   \<and> CR \<notin> set (normalizeNewlines left)
   \<and> normalizeNewlines (str ''x'' @ [CR] @ str ''y'' @ [CR, LF] @ str ''z'') = str ''x\<newline>y\<newline>z''
   \<and> computeDiff (str ''a'' @ [CR, LF] @ str ''b'' @ [CR, LF] @ str ''c'' @ [CR, LF])
               (str ''a\<newline>b\<newline>c\<newline>'') =
     [\<lparr> type = Equal, leftLine = Some (str ''a''), rightLine = Some (str ''a''),
        leftLineNumber = Some 1, rightLineNumber = Some 1,
        leftCharDiffs = None, rightCharDiffs = None \<rparr>,
      \<lparr> type = Equal, leftLine = Some (str ''b''), rightLine = Some (str ''b''),
        leftLineNumber = Some 2, rightLineNumber = Some 2,
        leftCharDiffs = None, rightCharDiffs = None \<rparr>,
      \<lparr> type = Equal, leftLine = Some (str ''c''), rightLine = Some (str ''c''),
        leftLineNumber = Some 3, rightLineNumber = Some 3,
        leftCharDiffs = None, rightCharDiffs = None \<rparr>,
      \<lparr> type = Equal, leftLine = Some [], rightLine = Some [],
        leftLineNumber = Some 4, rightLineNumber = Some 4,
        leftCharDiffs = None, rightCharDiffs = None \<rparr>]"
proof -
  have "normalizeNewlines (str ''x'' @ [CR] @ str ''y'' @ [CR, LF] @ str ''z'') = str ''x\<newline>y\<newline>z''"
    by code_simp
  then show ?thesis
    using computeDiff_normalized normalizeNewlines_no_CR crlf_example by blast
qed

text \<open>
  Claim C8. An empty input has zero lines: diffing \<open>""\<close> against \<open>"a\nb"\<close> yields
  exactly an Insert of \<open>"a"\<close> with right line number 1 and an Insert of \<open>"b"\<close> with
  right line number 2, and no other record.
\<close>

theorem computeDiff_empty_left:
  "splitLines (normalizeNewlines []) = []
   \<and> computeDiff [] (str ''a\<newline>b'') =
     [\<lparr> type = Insert, leftLine = None, rightLine = Some (str ''a''),
        leftLineNumber = None, rightLineNumber = Some 1,
        leftCharDiffs = None, rightCharDiffs = None \<rparr>,
      \<lparr> type = Insert, leftLine = None, rightLine = Some (str ''b''),
        leftLineNumber = None, rightLineNumber = Some 2,
        leftCharDiffs = None, rightCharDiffs = None \<rparr>]"
  by code_simp

lemma single_modify_run:
  "computeDiff (str ''a\<newline>b\<newline>c'') (str ''a\<newline>B\<newline>c'') =
     [\<lparr> type = Equal, leftLine = Some (str ''a''), rightLine = Some (str ''a''),
        leftLineNumber = Some 1, rightLineNumber = Some 1,
        leftCharDiffs = None, rightCharDiffs = None \<rparr>,
      \<lparr> type = Modify, leftLine = Some (str ''b''), rightLine = Some (str ''B''),
        leftLineNumber = Some 2, rightLineNumber = Some 2,
        leftCharDiffs = None, rightCharDiffs = None \<rparr>,
      \<lparr> type = Equal, leftLine = Some (str ''c''), rightLine = Some (str ''c''),
        leftLineNumber = Some 3, rightLineNumber = Some 3,
        leftCharDiffs = None, rightCharDiffs = None \<rparr>]"
  by code_simp

text \<open>
  Claim C9. Diffing \<open>"a\nb\nc"\<close> against \<open>"a\nB\nc"\<close> yields exactly Equal \<open>"a"\<close>,
  Modify \<open>"b"\<close> to \<open>"B"\<close>, Equal \<open>"c"\<close>.
\<close>

theorem computeDiff_single_modify:
  "computeDiff (str ''a\<newline>b\<newline>c'') (str ''a\<newline>B\<newline>c'') =
     [\<lparr> type = Equal, leftLine = Some (str ''a''), rightLine = Some (str ''a''),
        leftLineNumber = Some 1, rightLineNumber = Some 1,
        leftCharDiffs = None, rightCharDiffs = None \<rparr>,
      \<lparr> type = Modify, leftLine = Some (str ''b''), rightLine = Some (str ''B''),
        leftLineNumber = Some 2, rightLineNumber = Some 2,
        leftCharDiffs = None, rightCharDiffs = None \<rparr>,
      \<lparr> type = Equal, leftLine = Some (str ''c''), rightLine = Some (str ''c''),
        leftLineNumber = Some 3, rightLineNumber = Some 3,
        leftCharDiffs = None, rightCharDiffs = None \<rparr>]"
  by (rule single_modify_run)

section \<open>Invariants of the main loop\<close>

lemma computeDiff_loop_exit:
  "\<not> (leftIndex (computeDiff_loop L R st) < length L \<or> rightIndex (computeDiff_loop L R st) < length R)"
proof (induction L R st rule: computeDiff_loop.induct)
  case (1 L R st)
  show ?case
  proof (cases "leftIndex st < length L \<or> rightIndex st < length R")
    case True
    with "1.IH" show ?thesis by (subst (1 2) computeDiff_loop.simps) simp
  next
    case False
    then show ?thesis by (subst (1 2) computeDiff_loop.simps) simp
  qed
qed

lemma computeDiff_loop_pushes:
  "(push_step L R)\<^sup>*\<^sup>* st (computeDiff_loop L R st)"
proof (induction L R st rule: computeDiff_loop.induct)
  case (1 L R st)
  show ?case
  proof (cases "leftIndex st < length L \<or> rightIndex st < length R")
    case True
    from computeDiff_step_pushes[OF True]
    have "(push_step L R)\<^sup>*\<^sup>* st (computeDiff_step L R st)" by (rule tranclp_into_rtranclp)
    also have "(push_step L R)\<^sup>*\<^sup>* (computeDiff_step L R st) (computeDiff_loop L R (computeDiff_step L R st))"
      using "1.IH"[OF True] .
    finally show ?thesis using True by (subst computeDiff_loop.simps) simp
  next
    case False
    then show ?thesis by (subst computeDiff_loop.simps) simp
  qed
qed

text \<open>
  The records that carry a left (right) line number, and the invariant that ties them to
  the lines consumed so far.
\<close>

definition carriesLeft :: "DiffLine \<Rightarrow> bool" where
  "carriesLeft r = (leftLineNumber r \<noteq> None)"

definition carriesRight :: "DiffLine \<Rightarrow> bool" where
  "carriesRight r = (rightLineNumber r \<noteq> None)"

definition lines_inv :: "jsstring list \<Rightarrow> jsstring list \<Rightarrow> diff_state \<Rightarrow> bool" where
  "lines_inv L R st =
     (leftIndex st \<le> length L \<and> rightIndex st \<le> length R
      \<and> leftLineNum st = leftIndex st + 1 \<and> rightLineNum st = rightIndex st + 1
      \<and> map (\<lambda>r. (leftLineNumber r, leftLine r)) (filter carriesLeft (result st))
          = map (\<lambda>i. (Some (i + 1), Some (L ! i))) [0..<leftIndex st]
      \<and> map (\<lambda>r. (rightLineNumber r, rightLine r)) (filter carriesRight (result st))
          = map (\<lambda>i. (Some (i + 1), Some (R ! i))) [0..<rightIndex st]
      \<and> filter (\<lambda>r. leftLine r \<noteq> None) (result st) = filter carriesLeft (result st)
      \<and> filter (\<lambda>r. rightLine r \<noteq> None) (result st) = filter carriesRight (result st))"

lemma push_step_lines_inv:
  "push_step L R s t \<Longrightarrow> lines_inv L R s \<Longrightarrow> lines_inv L R t"
proof (induction rule: push_step.induct)
  case (ps_insert s)
  then show ?case
    by (simp add: lines_inv_def pushInsert_def carriesLeft_def carriesRight_def)
next
  case (ps_delete s)
  then show ?case
    by (simp add: lines_inv_def pushDelete_def carriesLeft_def carriesRight_def)
next
  case (ps_equal s)
  then show ?case
    by (simp add: lines_inv_def pushEqual_def carriesLeft_def carriesRight_def)
next
  case (ps_modify s)
  then show ?case
    by (simp add: lines_inv_def pushModify_def carriesLeft_def carriesRight_def)
qed

lemma pushes_lines_inv:
  "(push_step L R)\<^sup>*\<^sup>* s t \<Longrightarrow> lines_inv L R s \<Longrightarrow> lines_inv L R t"
  by (induction rule: rtranclp_induct) (auto intro: push_step_lines_inv)

lemma lines_inv_final:
  "lines_inv L R (computeDiff_loop L R
     \<lparr> result = [], leftIndex = 0, rightIndex = 0, leftLineNum = 1, rightLineNum = 1 \<rparr>)"
  by (rule pushes_lines_inv[OF computeDiff_loop_pushes]) (simp add: lines_inv_def)

lemma computeDiff_rows:
  fixes left right
  defines "L \<equiv> splitLines (normalizeNewlines left)"
      and "R \<equiv> splitLines (normalizeNewlines right)"
  shows "map (\<lambda>r. (leftLineNumber r, leftLine r)) (filter carriesLeft (computeDiff left right))
          = map (\<lambda>i. (Some (i + 1), Some (L ! i))) [0..<length L]"
    and "map (\<lambda>r. (rightLineNumber r, rightLine r)) (filter carriesRight (computeDiff left right))
          = map (\<lambda>i. (Some (i + 1), Some (R ! i))) [0..<length R]"
    and "filter (\<lambda>r. leftLine r \<noteq> None) (computeDiff left right) = filter carriesLeft (computeDiff left right)"
    and "filter (\<lambda>r. rightLine r \<noteq> None) (computeDiff left right) = filter carriesRight (computeDiff left right)"
proof -
  let ?fin = "computeDiff_loop L R
     \<lparr> result = [], leftIndex = 0, rightIndex = 0, leftLineNum = 1, rightLineNum = 1 \<rparr>"
  have res: "computeDiff left right = result ?fin"
    by (simp add: computeDiff_def L_def R_def Let_def)
  have inv: "lines_inv L R ?fin" by (rule lines_inv_final)
  have ex: "\<not> (leftIndex ?fin < length L \<or> rightIndex ?fin < length R)"
    by (rule computeDiff_loop_exit)
  from inv ex have li: "leftIndex ?fin = length L" and ri: "rightIndex ?fin = length R"
    by (auto simp: lines_inv_def)
  show "map (\<lambda>r. (leftLineNumber r, leftLine r)) (filter carriesLeft (computeDiff left right))
          = map (\<lambda>i. (Some (i + 1), Some (L ! i))) [0..<length L]"
    using inv li unfolding res lines_inv_def by simp
  show "map (\<lambda>r. (rightLineNumber r, rightLine r)) (filter carriesRight (computeDiff left right))
          = map (\<lambda>i. (Some (i + 1), Some (R ! i))) [0..<length R]"
    using inv ri unfolding res lines_inv_def by simp
  show "filter (\<lambda>r. leftLine r \<noteq> None) (computeDiff left right) = filter carriesLeft (computeDiff left right)"
    using inv unfolding res lines_inv_def by simp
  show "filter (\<lambda>r. rightLine r \<noteq> None) (computeDiff left right) = filter carriesRight (computeDiff left right)"
    using inv unfolding res lines_inv_def by simp
qed

lemma rows_split:
  assumes "map (\<lambda>r. (f r, g r)) xs = map (\<lambda>i. (Some (i + 1), Some (L ! i))) [0..<length L]"
  shows "length xs = length L" and "map f xs = map Some [1..<length L + 1]" and "map g xs = map Some L"
proof -
  from assms have "length (map (\<lambda>r. (f r, g r)) xs) = length (map (\<lambda>i. (Some (i + 1), Some (L ! i))) [0..<length L])"
    by simp
  then show len: "length xs = length L" by simp
  have "map f xs = map fst (map (\<lambda>r. (f r, g r)) xs)" by simp
  also have "\<dots> = map (\<lambda>i. Some (i + 1)) [0..<length L]" unfolding assms by simp
  also have "\<dots> = map Some (map Suc [0..<length L])" by simp
  also have "map Suc [0..<length L] = [1..<length L + 1]"
    by (simp add: map_Suc_upt)
  finally show "map f xs = map Some [1..<length L + 1]" .
  have "map g xs = map snd (map (\<lambda>r. (f r, g r)) xs)" by simp
  also have "\<dots> = map (\<lambda>i. Some (L ! i)) [0..<length L]" unfolding assms by simp
  also have "\<dots> = map Some (map ((!) L) [0..<length L])" by simp
  also have "map ((!) L) [0..<length L] = L" by (rule map_nth)
  finally show "map g xs = map Some L" .
qed

text \<open>
  Claim C1. The records of \<open>computeDiff left right\<close> cover both inputs totally and in
  order. The records carrying a left line number are as many as the lines of the
  normalized and split left input; read in output order their numbers are
  \<open>1, 2, ..., leftLineCount\<close> and their texts are the left lines in order, so every left
  line is in exactly one record; and no other record holds a left line. The same holds
  on the right.
\<close>

theorem computeDiff_total_coverage:
  fixes left right
  defines "leftLines \<equiv> splitLines (normalizeNewlines left)"
      and "rightLines \<equiv> splitLines (normalizeNewlines right)"
      and "out \<equiv> computeDiff left right"
  shows "length (filter carriesLeft out) = length leftLines
       \<and> length (filter carriesRight out) = length rightLines
       \<and> map leftLineNumber (filter carriesLeft out) = map Some [1..<length leftLines + 1]
       \<and> map rightLineNumber (filter carriesRight out) = map Some [1..<length rightLines + 1]
       \<and> map leftLine (filter carriesLeft out) = map Some leftLines
       \<and> map rightLine (filter carriesRight out) = map Some rightLines
       \<and> filter (\<lambda>r. leftLine r \<noteq> None) out = filter carriesLeft out
       \<and> filter (\<lambda>r. rightLine r \<noteq> None) out = filter carriesRight out"
  unfolding leftLines_def rightLines_def out_def
  using rows_split[OF computeDiff_rows(1)[of left right]]
        rows_split[OF computeDiff_rows(2)[of left right]]
        computeDiff_rows(3,4)[of left right]
  by blast

section \<open>Kinds of the records\<close>

definition kind_ok :: "DiffLine \<Rightarrow> bool" where
  "kind_ok r = ((type r = Equal \<longrightarrow> leftLine r = rightLine r)
              \<and> (type r = Modify \<longrightarrow> leftLine r \<noteq> rightLine r))"

lemma push_step_kind_ok:
  "push_step L R s t \<Longrightarrow> list_all kind_ok (result s) \<Longrightarrow> list_all kind_ok (result t)"
  by (induction rule: push_step.induct)
     (simp_all add: kind_ok_def pushInsert_def pushDelete_def pushEqual_def pushModify_def)

lemma pushes_kind_ok:
  "(push_step L R)\<^sup>*\<^sup>* s t \<Longrightarrow> list_all kind_ok (result s) \<Longrightarrow> list_all kind_ok (result t)"
  by (induction rule: rtranclp_induct) (auto intro: push_step_kind_ok)

lemma computeDiff_kind_ok: "list_all kind_ok (computeDiff left right)"
  unfolding computeDiff_def Let_def
  by (rule pushes_kind_ok[OF computeDiff_loop_pushes]) simp

text \<open>
  Claim C10. In every record of \<open>computeDiff left right\<close>, kind Equal comes with equal
  left and right lines, and kind Modify with different ones.
\<close>

theorem computeDiff_kinds:
  "\<forall>r \<in> set (computeDiff left right).
     (type r = Equal \<longrightarrow> leftLine r = rightLine r)
   \<and> (type r = Modify \<longrightarrow> leftLine r \<noteq> rightLine r)"
  using computeDiff_kind_ok[of left right] by (simp add: list_all_iff kind_ok_def)

theorem computeDiff_kinds_witness:
  "type (computeDiff (str ''a\<newline>b\<newline>c'') (str ''a\<newline>B\<newline>c'') ! 0) = Equal
   \<and> leftLine (computeDiff (str ''a\<newline>b\<newline>c'') (str ''a\<newline>B\<newline>c'') ! 0)
       = rightLine (computeDiff (str ''a\<newline>b\<newline>c'') (str ''a\<newline>B\<newline>c'') ! 0)
   \<and> type (computeDiff (str ''a\<newline>b\<newline>c'') (str ''a\<newline>B\<newline>c'') ! 1) = Modify
   \<and> leftLine (computeDiff (str ''a\<newline>b\<newline>c'') (str ''a\<newline>B\<newline>c'') ! 1)
       \<noteq> rightLine (computeDiff (str ''a\<newline>b\<newline>c'') (str ''a\<newline>B\<newline>c'') ! 1)"
proof -
  let ?out = "computeDiff (str ''a\<newline>b\<newline>c'') (str ''a\<newline>B\<newline>c'')"
  have len: "length ?out = 3" by (simp add: single_modify_run)
  then have m0: "?out ! 0 \<in> set ?out" and m1: "?out ! 1 \<in> set ?out"
    by (simp_all del: set_conv_nth)
  have t0: "type (?out ! 0) = Equal" and t1: "type (?out ! 1) = Modify"
    by (simp_all add: single_modify_run)
  from computeDiff_kinds[of "str ''a\<newline>b\<newline>c''" "str ''a\<newline>B\<newline>c''"] m0 m1 t0 t1
  show ?thesis by blast
qed

section \<open>Invariants of the token loop\<close>

lemma tokenize_loop_concat: "concat (tokenize_loop rest tokens) = concat tokens @ rest"
proof (induction rest tokens rule: tokenize_loop.induct)
  case (1 rest tokens)
  define ws where "ws = takeWhile isWhitespace rest"
  define tl_rest where "tl_rest = dropWhile isWhitespace rest"
  define word where "word = takeWhile (\<lambda>c. \<not> isWhitespace c) tl_rest"
  define tokens1 where "tokens1 = (if ws \<noteq> [] then tokens @ [ws] else tokens)"
  have split1: "ws @ tl_rest = rest" unfolding ws_def tl_rest_def by simp
  have eq: "tokenize_loop rest tokens =
     (if tl_rest = [] then (if rest \<noteq> [] then tokens @ [rest] else tokens)
      else tokenize_loop (dropWhile (\<lambda>c. \<not> isWhitespace c) tl_rest) (tokens1 @ [word]))"
    unfolding ws_def tl_rest_def word_def tokens1_def
    by (subst tokenize_loop.simps) (simp only: Let_def)
  show ?case
  proof (cases "tl_rest = []")
    case True
    then show ?thesis unfolding eq by simp
  next
    case False
    have ih: "concat (tokenize_loop (dropWhile (\<lambda>c. \<not> isWhitespace c) tl_rest) (tokens1 @ [word]))
        = concat (tokens1 @ [word]) @ dropWhile (\<lambda>c. \<not> isWhitespace c) tl_rest"
      using "1.IH"[OF ws_def tl_rest_def False word_def tokens1_def] .
    have "concat (tokens1 @ [word]) @ dropWhile (\<lambda>c. \<not> isWhitespace c) tl_rest
        = concat tokens1 @ tl_rest"
      by (simp add: word_def)
    also have "\<dots> = concat tokens @ ws @ tl_rest" by (simp add: tokens1_def)
    also have "\<dots> = concat tokens @ rest" by (simp only: split1)
    finally show ?thesis using False ih unfolding eq by simp
  qed
qed

lemma concat_tokenize: "concat (tokenize t) = t"
  by (simp add: tokenize_def Let_def tokenize_loop_concat)

lemma appendCharDiff_text:
  "concat (map text' (appendCharDiff arr ty tok)) = concat (map text' arr) @ tok"
proof (cases "length arr > 0 \<and> CharDiff.type (arr ! (length arr - 1)) = ty")
  case True
  then have ne: "arr \<noteq> []" by auto
  then obtain ys y where arr: "arr = ys @ [y]" by (metis rev_exhaust)
  show ?thesis using True by (simp add: appendCharDiff_def arr)
next
  case False
  then show ?thesis by (auto simp: appendCharDiff_def)
qed

lemma appendCharDiff_types:
  "map CharDiff.type (appendCharDiff arr ty tok)
     = (if arr \<noteq> [] \<and> CharDiff.type (last arr) = ty then map CharDiff.type arr
        else map CharDiff.type arr @ [ty])"
proof (cases "arr = []")
  case True
  then show ?thesis by (simp add: appendCharDiff_def)
next
  case False
  then obtain ys y where arr: "arr = ys @ [y]" by (metis rev_exhaust)
  show ?thesis by (simp add: appendCharDiff_def arr)
qed

lemma appendCharDiff_distinct_adj:
  "distinct_adj (map CharDiff.type arr) \<Longrightarrow>
   distinct_adj (map CharDiff.type (appendCharDiff arr ty tok))"
  by (cases "arr = []") (simp_all add: appendCharDiff_types distinct_adj_append_iff last_map)

lemma computeCharDiff_loop_exit:
  "\<not> (leftIdx (computeCharDiff_loop L R st) < length L
      \<or> rightIdx (computeCharDiff_loop L R st) < length R)"
proof (induction L R st rule: computeCharDiff_loop.induct)
  case (1 L R st)
  show ?case
  proof (cases "leftIdx st < length L \<or> rightIdx st < length R")
    case True
    with "1.IH" show ?thesis by (subst (1 2) computeCharDiff_loop.simps) simp
  next
    case False
    then show ?thesis by (subst (1 2) computeCharDiff_loop.simps) simp
  qed
qed

lemma computeCharDiff_loop_pushes:
  "(cpush_step L R)\<^sup>*\<^sup>* st (computeCharDiff_loop L R st)"
proof (induction L R st rule: computeCharDiff_loop.induct)
  case (1 L R st)
  show ?case
  proof (cases "leftIdx st < length L \<or> rightIdx st < length R")
    case True
    from computeCharDiff_step_push[OF True]
    have "(cpush_step L R)\<^sup>*\<^sup>* st (computeCharDiff_step L R st)" by (rule r_into_rtranclp)
    also have "(cpush_step L R)\<^sup>*\<^sup>* (computeCharDiff_step L R st)
                 (computeCharDiff_loop L R (computeCharDiff_step L R st))"
      using "1.IH"[OF True] .
    finally show ?thesis using True by (subst computeCharDiff_loop.simps) simp
  next
    case False
    then show ?thesis by (subst computeCharDiff_loop.simps) simp
  qed
qed

text \<open>The spans written so far spell the tokens consumed so far.\<close>

definition text_inv :: "jsstring list \<Rightarrow> jsstring list \<Rightarrow> char_state \<Rightarrow> bool" where
  "text_inv L R st =
     (leftIdx st \<le> length L \<and> rightIdx st \<le> length R
      \<and> concat (map text' (result_left st)) = concat (take (leftIdx st) L)
      \<and> concat (map text' (result_right st)) = concat (take (rightIdx st) R))"

lemma cpush_step_text_inv:
  "cpush_step L R s t \<Longrightarrow> text_inv L R s \<Longrightarrow> text_inv L R t"
  by (induction rule: cpush_step.induct)
     (simp_all add: text_inv_def pushCInsert_def pushCDelete_def pushCEqual_def pushCModify_def
        appendCharDiff_text take_Suc_conv_app_nth)

lemma cpushes_text_inv:
  "(cpush_step L R)\<^sup>*\<^sup>* s t \<Longrightarrow> text_inv L R s \<Longrightarrow> text_inv L R t"
  by (induction rule: rtranclp_induct) (auto intro: cpush_step_text_inv)

lemma computeCharDiff_reconstructs:
  "concat (map text' (fst (computeCharDiff left right))) = left"
  "concat (map text' (snd (computeCharDiff left right))) = right"
proof -
  let ?L = "tokenize left" and ?R = "tokenize right"
  let ?fin = "computeCharDiff_run left right"
  have "text_inv ?L ?R ?fin"
    unfolding computeCharDiff_run_def
    by (rule cpushes_text_inv[OF computeCharDiff_loop_pushes]) (simp add: text_inv_def)
  moreover have "\<not> (leftIdx ?fin < length ?L \<or> rightIdx ?fin < length ?R)"
    unfolding computeCharDiff_run_def by (rule computeCharDiff_loop_exit)
  ultimately have "concat (map text' (result_left ?fin)) = concat ?L"
    and "concat (map text' (result_right ?fin)) = concat ?R"
    by (auto simp: text_inv_def)
  then show "concat (map text' (fst (computeCharDiff left right))) = left"
    and "concat (map text' (snd (computeCharDiff left right))) = right"
    by (simp_all add: computeCharDiff_def Let_def concat_tokenize)
qed

text \<open>No two neighbouring spans have the same kind.\<close>

definition adj_inv :: "char_state \<Rightarrow> bool" where
  "adj_inv st = (distinct_adj (map CharDiff.type (result_left st))
               \<and> distinct_adj (map CharDiff.type (result_right st)))"

lemma cpush_step_adj_inv:
  "cpush_step L R s t \<Longrightarrow> adj_inv s \<Longrightarrow> adj_inv t"
  by (induction rule: cpush_step.induct)
     (simp_all add: adj_inv_def pushCInsert_def pushCDelete_def pushCEqual_def pushCModify_def
        appendCharDiff_distinct_adj)

lemma cpushes_adj_inv:
  "(cpush_step L R)\<^sup>*\<^sup>* s t \<Longrightarrow> adj_inv s \<Longrightarrow> adj_inv t"
  by (induction rule: rtranclp_induct) (auto intro: cpush_step_adj_inv)

lemma computeCharDiff_distinct_adj:
  "distinct_adj (map CharDiff.type (fst (computeCharDiff left right)))"
  "distinct_adj (map CharDiff.type (snd (computeCharDiff left right)))"
proof -
  have "adj_inv (computeCharDiff_run left right)"
    unfolding computeCharDiff_run_def
    by (rule cpushes_adj_inv[OF computeCharDiff_loop_pushes]) (simp add: adj_inv_def)
  then show "distinct_adj (map CharDiff.type (fst (computeCharDiff left right)))"
    and "distinct_adj (map CharDiff.type (snd (computeCharDiff left right)))"
    by (simp_all add: computeCharDiff_def Let_def adj_inv_def)
qed

text \<open>
  A common matching of two token sequences: index pairs strictly increasing on both
  sides, in range, with equal tokens at every pair.
\<close>

definition is_common_matching :: "jsstring list \<Rightarrow> jsstring list \<Rightarrow> (nat \<times> nat) list \<Rightarrow> bool" where
  "is_common_matching A B ps =
     (sorted_wrt (\<lambda>p q. fst p < fst q \<and> snd p < snd q) ps
      \<and> list_all (\<lambda>p. fst p < length A \<and> snd p < length B \<and> A ! fst p = B ! snd p) ps)"

definition match_inv :: "jsstring list \<Rightarrow> jsstring list \<Rightarrow> char_state \<Rightarrow> bool" where
  "match_inv L R st =
     (is_common_matching L R (matched st)
      \<and> list_all (\<lambda>p. fst p < leftIdx st \<and> snd p < rightIdx st) (matched st))"

lemma list_all_mono_lt:
  "list_all (\<lambda>p. fst p < (a::nat) \<and> snd p < (b::nat)) ps \<Longrightarrow> a \<le> a' \<Longrightarrow> b \<le> b' \<Longrightarrow>
   list_all (\<lambda>p. fst p < a' \<and> snd p < b') ps"
  by (induction ps) auto

lemma cpush_step_match_inv:
  "cpush_step L R s t \<Longrightarrow> match_inv L R s \<Longrightarrow> match_inv L R t"
proof (induction rule: cpush_step.induct)
  case (cps_insert s)
  then show ?case
    by (auto simp: match_inv_def pushCInsert_def elim: list_all_mono_lt)
next
  case (cps_delete s)
  then show ?case
    by (auto simp: match_inv_def pushCDelete_def elim: list_all_mono_lt)
next
  case (cps_equal s)
  from cps_equal.prems have bound: "list_all (\<lambda>p. fst p < leftIdx s \<and> snd p < rightIdx s) (matched s)"
    and cm: "is_common_matching L R (matched s)"
    by (simp_all add: match_inv_def)
  have "is_common_matching L R (matched s @ [(leftIdx s, rightIdx s)])"
    using cm bound cps_equal.hyps
    by (auto simp: is_common_matching_def sorted_wrt_append list_all_iff)
  moreover have "list_all (\<lambda>p. fst p < leftIdx s + 1 \<and> snd p < rightIdx s + 1)
                   (matched s @ [(leftIdx s, rightIdx s)])"
    using list_all_mono_lt[OF bound, of "leftIdx s + 1" "rightIdx s + 1"] by simp
  ultimately show ?case
    by (simp add: match_inv_def pushCEqual_def)
next
  case (cps_modify s)
  then show ?case
    by (auto simp: match_inv_def pushCModify_def elim: list_all_mono_lt)
qed

lemma cpushes_match_inv:
  "(cpush_step L R)\<^sup>*\<^sup>* s t \<Longrightarrow> match_inv L R s \<Longrightarrow> match_inv L R t"
  by (induction rule: rtranclp_induct) (auto intro: cpush_step_match_inv)

lemma matchedPairs_common:
  "is_common_matching (tokenize left) (tokenize right) (matchedPairs left right)"
proof -
  have "match_inv (tokenize left) (tokenize right) (computeCharDiff_run left right)"
    unfolding computeCharDiff_run_def
    by (rule cpushes_match_inv[OF computeCharDiff_loop_pushes])
       (simp add: match_inv_def is_common_matching_def)
  then show ?thesis by (simp add: match_inv_def matchedPairs_def)
qed

section \<open>Termination of the two loops\<close>

lemma push_step_advance:
  "push_step L R s t \<Longrightarrow>
   leftIndex s \<le> leftIndex t \<and> rightIndex s \<le> rightIndex t
   \<and> leftIndex s + rightIndex s < leftIndex t + rightIndex t"
  by (induction rule: push_step.induct)
     (simp_all add: pushInsert_def pushDelete_def pushEqual_def pushModify_def)

lemma pushes_advance:
  "(push_step L R)\<^sup>+\<^sup>+ s t \<Longrightarrow>
   leftIndex s \<le> leftIndex t \<and> rightIndex s \<le> rightIndex t
   \<and> leftIndex s + rightIndex s < leftIndex t + rightIndex t"
proof (induction rule: tranclp_induct)
  case (base y)
  then show ?case by (rule push_step_advance)
next
  case (step y z)
  from push_step_advance[OF step.hyps(2)] step.IH show ?case by linarith
qed

lemma cpush_step_advance:
  "cpush_step L R s t \<Longrightarrow>
   leftIdx s \<le> leftIdx t \<and> rightIdx s \<le> rightIdx t
   \<and> leftIdx s + rightIdx s < leftIdx t + rightIdx t"
  by (induction rule: cpush_step.induct)
     (simp_all add: pushCInsert_def pushCDelete_def pushCEqual_def pushCModify_def)

lemma computeDiff_loop_funpow:
  "\<exists>n \<le> remaining L R st. computeDiff_loop L R st = (computeDiff_step L R ^^ n) st"
proof (induction L R st rule: computeDiff_loop.induct)
  case (1 L R st)
  show ?case
  proof (cases "leftIndex st < length L \<or> rightIndex st < length R")
    case True
    from "1.IH"[OF True] obtain n where
      n: "n \<le> remaining L R (computeDiff_step L R st)"
      and eq: "computeDiff_loop L R (computeDiff_step L R st)
                 = (computeDiff_step L R ^^ n) (computeDiff_step L R st)"
      by blast
    have "computeDiff_loop L R st = (computeDiff_step L R ^^ Suc n) st"
      using True eq by (subst computeDiff_loop.simps) (simp add: funpow_swap1)
    moreover have "Suc n \<le> remaining L R st"
      using n computeDiff_step_remaining[OF True] by linarith
    ultimately show ?thesis by blast
  next
    case False
    then have "computeDiff_loop L R st = (computeDiff_step L R ^^ 0) st"
      by (subst computeDiff_loop.simps) simp
    then show ?thesis by blast
  qed
qed

lemma computeCharDiff_loop_funpow:
  "\<exists>n \<le> remainingTokens L R st.
     computeCharDiff_loop L R st = (computeCharDiff_step L R ^^ n) st"
proof (induction L R st rule: computeCharDiff_loop.induct)
  case (1 L R st)
  show ?case
  proof (cases "leftIdx st < length L \<or> rightIdx st < length R")
    case True
    from "1.IH"[OF True] obtain n where
      n: "n \<le> remainingTokens L R (computeCharDiff_step L R st)"
      and eq: "computeCharDiff_loop L R (computeCharDiff_step L R st)
                 = (computeCharDiff_step L R ^^ n) (computeCharDiff_step L R st)"
      by blast
    have "computeCharDiff_loop L R st = (computeCharDiff_step L R ^^ Suc n) st"
      using True eq by (subst computeCharDiff_loop.simps) (simp add: funpow_swap1)
    moreover have "Suc n \<le> remainingTokens L R st"
      using n computeCharDiff_step_remaining[OF True] by linarith
    ultimately show ?thesis by blast
  next
    case False
    then have "computeCharDiff_loop L R st = (computeCharDiff_step L R ^^ 0) st"
      by (subst computeCharDiff_loop.simps) simp
    then show ?thesis by blast
  qed
qed

lemma computeDiff_step_advance:
  assumes "leftIndex st < length L \<or> rightIndex st < length R"
  shows "leftIndex st \<le> leftIndex (computeDiff_step L R st)
       \<and> rightIndex st \<le> rightIndex (computeDiff_step L R st)
       \<and> (leftIndex st < leftIndex (computeDiff_step L R st)
          \<or> rightIndex st < rightIndex (computeDiff_step L R st))
       \<and> remaining L R (computeDiff_step L R st) < remaining L R st"
  using pushes_advance[OF computeDiff_step_pushes[OF assms]] computeDiff_step_remaining[OF assms]
  by linarith

lemma computeCharDiff_step_advance:
  assumes "leftIdx st < length L \<or> rightIdx st < length R"
  shows "leftIdx st \<le> leftIdx (computeCharDiff_step L R st)
       \<and> rightIdx st \<le> rightIdx (computeCharDiff_step L R st)
       \<and> (leftIdx st < leftIdx (computeCharDiff_step L R st)
          \<or> rightIdx st < rightIdx (computeCharDiff_step L R st))
       \<and> remainingTokens L R (computeCharDiff_step L R st) < remainingTokens L R st"
  using cpush_step_advance[OF computeCharDiff_step_push[OF assms]]
        computeCharDiff_step_remaining[OF assms]
  by linarith

lemma empty_runs:
  "computeDiff [] [] = []" "enhanceWithCharDiffs (computeDiff [] []) = []"
  by code_simp+

text \<open>
  Claim C4. Both loops terminate on every input. The main loop of \<open>computeDiff\<close> is its
  body iterated at most as many times as lines remain on the two sides, and it ends in a
  state where both indices have reached the ends; an iteration entered under the loop
  condition never moves an index back, moves at least one index forward and shrinks the
  number of remaining lines. The same holds for the token loop of \<open>computeCharDiff\<close>.
  There is no error result: the source has no \<open>throw\<close>, and every array read happens
  under the index guard recorded in \<open>push_step\<close> and \<open>cpush_step\<close>. Empty inputs on
  both sides give the empty sequence.
\<close>

theorem diff_loops_terminate:
  "(\<exists>n \<le> remaining L R st. computeDiff_loop L R st = (computeDiff_step L R ^^ n) st)
   \<and> \<not> (leftIndex (computeDiff_loop L R st) < length L
        \<or> rightIndex (computeDiff_loop L R st) < length R)
   \<and> (leftIndex st < length L \<or> rightIndex st < length R \<longrightarrow>
        leftIndex st \<le> leftIndex (computeDiff_step L R st)
      \<and> rightIndex st \<le> rightIndex (computeDiff_step L R st)
      \<and> (leftIndex st < leftIndex (computeDiff_step L R st)
         \<or> rightIndex st < rightIndex (computeDiff_step L R st))
      \<and> remaining L R (computeDiff_step L R st) < remaining L R st)
   \<and> (\<exists>n \<le> remainingTokens LT RT ct.
         computeCharDiff_loop LT RT ct = (computeCharDiff_step LT RT ^^ n) ct)
   \<and> \<not> (leftIdx (computeCharDiff_loop LT RT ct) < length LT
        \<or> rightIdx (computeCharDiff_loop LT RT ct) < length RT)
   \<and> (leftIdx ct < length LT \<or> rightIdx ct < length RT \<longrightarrow>
        leftIdx ct \<le> leftIdx (computeCharDiff_step LT RT ct)
      \<and> rightIdx ct \<le> rightIdx (computeCharDiff_step LT RT ct)
      \<and> (leftIdx ct < leftIdx (computeCharDiff_step LT RT ct)
         \<or> rightIdx ct < rightIdx (computeCharDiff_step LT RT ct))
      \<and> remainingTokens LT RT (computeCharDiff_step LT RT ct) < remainingTokens LT RT ct)
   \<and> computeDiff [] [] = []
   \<and> enhanceWithCharDiffs (computeDiff [] []) = []"
  using computeDiff_loop_funpow[of L R st] computeDiff_loop_exit[of L R st]
        computeDiff_step_advance[of st L R]
        computeCharDiff_loop_funpow[of LT RT ct] computeCharDiff_loop_exit[of LT RT ct]
        computeCharDiff_step_advance[of ct LT RT] empty_runs
  by blast

theorem diff_loops_terminate_witness:
  "remaining [str ''a''] [str ''b'']
     (computeDiff_step [str ''a''] [str ''b'']
        \<lparr> result = [], leftIndex = 0, rightIndex = 0, leftLineNum = 1, rightLineNum = 1 \<rparr>)
   < remaining [str ''a''] [str ''b'']
        \<lparr> result = [], leftIndex = 0, rightIndex = 0, leftLineNum = 1, rightLineNum = 1 \<rparr>
   \<and> remainingTokens [str ''a''] [str ''b'']
     (computeCharDiff_step [str ''a''] [str ''b'']
        \<lparr> result_left = [], result_right = [], leftIdx = 0, rightIdx = 0, matched = [] \<rparr>)
   < remainingTokens [str ''a''] [str ''b'']
        \<lparr> result_left = [], result_right = [], leftIdx = 0, rightIdx = 0, matched = [] \<rparr>"
  using diff_loops_terminate[of "[str ''a'']" "[str ''b'']"
      "\<lparr> result = [], leftIndex = 0, rightIndex = 0, leftLineNum = 1, rightLineNum = 1 \<rparr>"
      "[str ''a'']" "[str ''b'']"
      "\<lparr> result_left = [], result_right = [], leftIdx = 0, rightIdx = 0, matched = [] \<rparr>"]
  by simp

section \<open>Records of computeDiff carry no spans\<close>

definition fresh_ok :: "DiffLine \<Rightarrow> bool" where
  "fresh_ok r = (leftCharDiffs r = None \<and> rightCharDiffs r = None
               \<and> (type r = Modify \<longrightarrow> leftLine r \<noteq> None \<and> rightLine r \<noteq> None))"

lemma push_step_fresh_ok:
  "push_step L R s t \<Longrightarrow> list_all fresh_ok (result s) \<Longrightarrow> list_all fresh_ok (result t)"
  by (induction rule: push_step.induct)
     (simp_all add: fresh_ok_def pushInsert_def pushDelete_def pushEqual_def pushModify_def)

lemma pushes_fresh_ok:
  "(push_step L R)\<^sup>*\<^sup>* s t \<Longrightarrow> list_all fresh_ok (result s) \<Longrightarrow> list_all fresh_ok (result t)"
  by (induction rule: rtranclp_induct) (auto intro: push_step_fresh_ok)

lemma computeDiff_fresh_ok: "list_all fresh_ok (computeDiff left right)"
  unfolding computeDiff_def Let_def
  by (rule pushes_fresh_ok[OF computeDiff_loop_pushes]) simp

section \<open>Reconstruction of a modified line from its spans\<close>

text \<open>
  The text spelled by an optional span array, an absent array read as no span (as the
  repository's test reads it, \<open>(modify?.leftCharDiffs ?? [])\<close>).
\<close>

definition spansText :: "CharDiff list option \<Rightarrow> jsstring" where
  "spansText sp = (case sp of None \<Rightarrow> [] | Some ds \<Rightarrow> concat (map text' ds))"

definition reconstructs :: "DiffLine \<Rightarrow> bool" where
  "reconstructs r = (Some (spansText (leftCharDiffs r)) = leftLine r
                   \<and> Some (spansText (rightCharDiffs r)) = rightLine r)"

lemma enhanceLine_reconstructs:
  assumes "type d = Modify" "truthy (leftLine d)" "truthy (rightLine d)"
  shows "leftCharDiffs (enhanceLine d) \<noteq> None \<and> rightCharDiffs (enhanceLine d) \<noteq> None
       \<and> reconstructs (enhanceLine d)"
proof -
  from assms obtain l r where lr: "leftLine d = Some l" "rightLine d = Some r"
    by (auto simp: truthy_def split: option.splits)
  show ?thesis
    using assms lr
    by (simp add: enhanceLine_def Let_def reconstructs_def spansText_def
          computeCharDiff_reconstructs)
qed

lemma enhanceLine_skip:
  "\<not> (type d = Modify \<and> truthy (leftLine d) \<and> truthy (rightLine d)) \<Longrightarrow> enhanceLine d = d"
  by (auto simp: enhanceLine_def)

lemma enhanceLine_frame:
  "type (enhanceLine d) = type d \<and> leftLine (enhanceLine d) = leftLine d
   \<and> rightLine (enhanceLine d) = rightLine d
   \<and> leftLineNumber (enhanceLine d) = leftLineNumber d
   \<and> rightLineNumber (enhanceLine d) = rightLineNumber d"
  by (simp add: enhanceLine_def Let_def)

lemma empty_side_run:
  "enhanceWithCharDiffs (computeDiff (str ''\<newline>a'') (str ''b\<newline>a'')) =
     [\<lparr> type = Modify, leftLine = Some [], rightLine = Some (str ''b''),
        leftLineNumber = Some 1, rightLineNumber = Some 1,
        leftCharDiffs = None, rightCharDiffs = None \<rparr>,
      \<lparr> type = Equal, leftLine = Some (str ''a''), rightLine = Some (str ''a''),
        leftLineNumber = Some 2, rightLineNumber = Some 2,
        leftCharDiffs = None, rightCharDiffs = None \<rparr>]"
  by code_simp

text \<open>
  Claim C2 as stated fails. \<open>enhanceWithCharDiffs\<close> computes spans only under the guard
  \<open>line.leftLine && line.rightLine\<close> (line 365), and the empty string is false there.
  Diffing \<open>"\na"\<close> against \<open>"b\na"\<close> gives a Modify record with left line \<open>""\<close> and
  right line \<open>"b"\<close>; it gets no spans, so nothing spells its right line.
\<close>

theorem reconstruction_counterexample:
  "type (enhanceWithCharDiffs (computeDiff (str ''\<newline>a'') (str ''b\<newline>a'')) ! 0) = Modify
   \<and> rightLine (enhanceWithCharDiffs (computeDiff (str ''\<newline>a'') (str ''b\<newline>a'')) ! 0)
       = Some (str ''b'')
   \<and> rightCharDiffs (enhanceWithCharDiffs (computeDiff (str ''\<newline>a'') (str ''b\<newline>a'')) ! 0)
       = None
   \<and> \<not> reconstructs (enhanceWithCharDiffs (computeDiff (str ''\<newline>a'') (str ''b\<newline>a'')) ! 0)"
proof -
  have "str ''b'' \<noteq> []" by code_simp
  then show ?thesis
    unfolding empty_side_run by (simp add: reconstructs_def spansText_def)
qed

text \<open>
  Claim C2, amended. For every record of kind Modify in
  \<open>enhanceWithCharDiffs (computeDiff left right)\<close> whose left and right lines are both
  non-empty, both span arrays are present, the texts of the left spans concatenate to the
  left line and those of the right spans to the right line.
\<close>

theorem enhance_reconstruction:
  "\<forall>r \<in> set (enhanceWithCharDiffs (computeDiff left right)).
     type r = Modify \<and> leftLine r \<noteq> Some [] \<and> rightLine r \<noteq> Some [] \<longrightarrow>
       leftCharDiffs r \<noteq> None \<and> rightCharDiffs r \<noteq> None \<and> reconstructs r"
proof
  fix r assume "r \<in> set (enhanceWithCharDiffs (computeDiff left right))"
  then obtain d where d: "d \<in> set (computeDiff left right)" and r: "r = enhanceLine d"
    by (auto simp: enhanceWithCharDiffs_def)
  from computeDiff_fresh_ok[of left right] d have fr: "fresh_ok d"
    by (simp add: list_all_iff)
  show "type r = Modify \<and> leftLine r \<noteq> Some [] \<and> rightLine r \<noteq> Some [] \<longrightarrow>
       leftCharDiffs r \<noteq> None \<and> rightCharDiffs r \<noteq> None \<and> reconstructs r"
  proof
    assume a: "type r = Modify \<and> leftLine r \<noteq> Some [] \<and> rightLine r \<noteq> Some []"
    with r enhanceLine_frame[of d]
    have "type d = Modify" "leftLine d \<noteq> Some []" "rightLine d \<noteq> Some []" by simp_all
    with fr have "type d = Modify" "truthy (leftLine d)" "truthy (rightLine d)"
      by (auto simp: fresh_ok_def truthy_def split: option.splits)
    from enhanceLine_reconstructs[OF this] r
    show "leftCharDiffs r \<noteq> None \<and> rightCharDiffs r \<noteq> None \<and> reconstructs r" by simp
  qed
qed

lemma token_run:
  "enhanceWithCharDiffs (computeDiff (str ''a b'') (str ''a c'')) =
     [\<lparr> type = Modify, leftLine = Some (str ''a b''), rightLine = Some (str ''a c''),
        leftLineNumber = Some 1, rightLineNumber = Some 1,
        leftCharDiffs = Some [\<lparr> CharDiff.type = CEqual, text' = str ''a '' \<rparr>,
                              \<lparr> CharDiff.type = CDelete, text' = str ''b'' \<rparr>],
        rightCharDiffs = Some [\<lparr> CharDiff.type = CEqual, text' = str ''a '' \<rparr>,
                               \<lparr> CharDiff.type = CInsert, text' = str ''c'' \<rparr>] \<rparr>]"
  by code_simp

lemma str_nonempty: "str ''a b'' \<noteq> []" "str ''a c'' \<noteq> []"
  by code_simp+

theorem enhance_reconstruction_witness:
  "type (enhanceWithCharDiffs (computeDiff (str ''a b'') (str ''a c'')) ! 0) = Modify
   \<and> leftLine (enhanceWithCharDiffs (computeDiff (str ''a b'') (str ''a c'')) ! 0) \<noteq> Some []
   \<and> rightLine (enhanceWithCharDiffs (computeDiff (str ''a b'') (str ''a c'')) ! 0) \<noteq> Some []
   \<and> reconstructs (enhanceWithCharDiffs (computeDiff (str ''a b'') (str ''a c'')) ! 0)"
proof -
  let ?out = "enhanceWithCharDiffs (computeDiff (str ''a b'') (str ''a c''))"
  have m: "?out ! 0 \<in> set ?out" by (simp add: token_run)
  have h: "type (?out ! 0) = Modify" "leftLine (?out ! 0) \<noteq> Some []"
    "rightLine (?out ! 0) \<noteq> Some []"
    using str_nonempty by (simp_all add: token_run)
  from enhance_reconstruction[of "str ''a b''" "str ''a c''"] m h show ?thesis by blast
qed

section \<open>Matched tokens\<close>

text \<open>The text of the spans of kind \<open>equal\<close> in a span array.\<close>

definition equalText :: "CharDiff list \<Rightarrow> jsstring" where
  "equalText sp = concat (map text' (filter (\<lambda>d. CharDiff.type d = CEqual) sp))"

lemma appendCharDiff_equalText:
  "equalText (appendCharDiff arr ty tok) = equalText arr @ (if ty = CEqual then tok else [])"
proof (cases "arr = []")
  case True
  then show ?thesis by (simp add: appendCharDiff_def equalText_def)
next
  case False
  then obtain ys y where arr: "arr = ys @ [y]" by (metis rev_exhaust)
  show ?thesis by (simp add: appendCharDiff_def equalText_def arr)
qed

definition equal_inv :: "jsstring list \<Rightarrow> jsstring list \<Rightarrow> char_state \<Rightarrow> bool" where
  "equal_inv L R st =
     (equalText (result_left st) = concat (map (\<lambda>p. L ! fst p) (matched st))
      \<and> equalText (result_right st) = concat (map (\<lambda>p. R ! snd p) (matched st)))"

lemma cpush_step_equal_inv:
  "cpush_step L R s t \<Longrightarrow> equal_inv L R s \<Longrightarrow> equal_inv L R t"
  by (induction rule: cpush_step.induct)
     (simp_all add: equal_inv_def pushCInsert_def pushCDelete_def pushCEqual_def pushCModify_def
        appendCharDiff_equalText)

lemma cpushes_equal_inv:
  "(cpush_step L R)\<^sup>*\<^sup>* s t \<Longrightarrow> equal_inv L R s \<Longrightarrow> equal_inv L R t"
  by (induction rule: rtranclp_induct) (auto intro: cpush_step_equal_inv)

lemma matchedPairs_equalText:
  "equalText (fst (computeCharDiff left right))
     = concat (map (\<lambda>p. tokenize left ! fst p) (matchedPairs left right))"
  "equalText (snd (computeCharDiff left right))
     = concat (map (\<lambda>p. tokenize right ! snd p) (matchedPairs left right))"
proof -
  have "equal_inv (tokenize left) (tokenize right) (computeCharDiff_run left right)"
    unfolding computeCharDiff_run_def
    by (rule cpushes_equal_inv[OF computeCharDiff_loop_pushes])
       (simp add: equal_inv_def equalText_def)
  then show "equalText (fst (computeCharDiff left right))
     = concat (map (\<lambda>p. tokenize left ! fst p) (matchedPairs left right))"
    and "equalText (snd (computeCharDiff left right))
     = concat (map (\<lambda>p. tokenize right ! snd p) (matchedPairs left right))"
    by (simp_all add: equal_inv_def computeCharDiff_def matchedPairs_def Let_def)
qed

lemma greedy_run:
  "computeDiff (str ''a b'') (str ''b a b'') =
     [\<lparr> type = Modify, leftLine = Some (str ''a b''), rightLine = Some (str ''b a b''),
        leftLineNumber = Some 1, rightLineNumber = Some 1,
        leftCharDiffs = None, rightCharDiffs = None \<rparr>]"
  by code_simp

lemma greedy_tokens:
  "tokenize (str ''a b'') = [str ''a'', str '' '', str ''b'']"
  "tokenize (str ''b a b'') = [str ''b'', str '' '', str ''a'', str '' '', str ''b'']"
  by code_simp+

lemma greedy_matched: "matchedPairs (str ''a b'') (str ''b a b'') = [(2, 0)]"
  by code_simp

text \<open>
  Claim C3 as stated fails: the matching is not always of maximum length. For the Modify
  record of \<open>"a b"\<close> against \<open>"b a b"\<close> the tokens are \<open>a, " ", b\<close> and
  \<open>b, " ", a, " ", b\<close>. The look-ahead finds left token 2 equal to right token 0 and
  deletes the two tokens before it, so one pair is matched, while the pairs
  \<open>(0,2), (1,3), (2,4)\<close> are a common matching of length three.
\<close>

theorem matched_tokens_not_longest:
  "type (computeDiff (str ''a b'') (str ''b a b'') ! 0) = Modify
   \<and> leftLine (computeDiff (str ''a b'') (str ''b a b'') ! 0) = Some (str ''a b'')
   \<and> rightLine (computeDiff (str ''a b'') (str ''b a b'') ! 0) = Some (str ''b a b'')
   \<and> is_common_matching (tokenize (str ''a b'')) (tokenize (str ''b a b''))
        [(0, 2), (1, 3), (2, 4)]
   \<and> length (matchedPairs (str ''a b'') (str ''b a b'')) < length [(0::nat, 2::nat), (1, 3), (2, 4)]"
proof -
  have "is_common_matching (tokenize (str ''a b'')) (tokenize (str ''b a b''))
        [(0, 2), (1, 3), (2, 4)]"
    unfolding greedy_tokens by code_simp
  then show ?thesis by (simp add: greedy_run greedy_matched)
qed

text \<open>
  Claim C3, amended. The token pairs that \<open>computeCharDiff\<close> treats as equal form a common
  subsequence of the two token sequences: the index pairs are strictly increasing on both
  sides and the tokens are equal at every pair. They are exactly the tokens written to
  the spans of kind \<open>equal\<close>. The pairs are found by a greedy look-ahead of at most ten
  tokens; maximum length is not claimed.
\<close>

theorem matched_tokens_common_subsequence:
  "is_common_matching (tokenize left) (tokenize right) (matchedPairs left right)
   \<and> equalText (fst (computeCharDiff left right))
       = concat (map (\<lambda>p. tokenize left ! fst p) (matchedPairs left right))
   \<and> equalText (snd (computeCharDiff left right))
       = concat (map (\<lambda>p. tokenize right ! snd p) (matchedPairs left right))"
  using matchedPairs_common matchedPairs_equalText by blast

theorem matched_tokens_common_subsequence_witness:
  "is_common_matching (tokenize (str ''a b'')) (tokenize (str ''b a b''))
     (matchedPairs (str ''a b'') (str ''b a b''))"
  using matched_tokens_common_subsequence[of "str ''a b''" "str ''b a b''"] by simp

section \<open>Frame of enhanceWithCharDiffs\<close>

lemma trailing_run:
  "computeDiff (str ''a\<newline>'') (str ''a\<newline>b'') =
     [\<lparr> type = Equal, leftLine = Some (str ''a''), rightLine = Some (str ''a''),
        leftLineNumber = Some 1, rightLineNumber = Some 1,
        leftCharDiffs = None, rightCharDiffs = None \<rparr>,
      \<lparr> type = Modify, leftLine = Some [], rightLine = Some (str ''b''),
        leftLineNumber = Some 2, rightLineNumber = Some 2,
        leftCharDiffs = None, rightCharDiffs = None \<rparr>]"
  by code_simp

lemma trailing_enhanced:
  "enhanceWithCharDiffs (computeDiff (str ''a\<newline>'') (str ''a\<newline>b'')) =
     computeDiff (str ''a\<newline>'') (str ''a\<newline>b'')"
  by code_simp

text \<open>
  Claim C5 as stated fails: not every Modify record gains span fields. Diffing \<open>"a\n"\<close>
  against \<open>"a\nb"\<close> gives a Modify record with left line \<open>""\<close>; the guard of line 365
  is false for it and the record is returned without spans.
\<close>

theorem enhance_frame_counterexample:
  "type (computeDiff (str ''a\<newline>'') (str ''a\<newline>b'') ! 1) = Modify
   \<and> leftCharDiffs (enhanceWithCharDiffs (computeDiff (str ''a\<newline>'') (str ''a\<newline>b'')) ! 1) = None
   \<and> rightCharDiffs (enhanceWithCharDiffs (computeDiff (str ''a\<newline>'') (str ''a\<newline>b'')) ! 1) = None"
  unfolding trailing_enhanced unfolding trailing_run by simp

text \<open>
  Claim C5, amended. \<open>enhanceWithCharDiffs\<close> returns a sequence of the same length and
  order. A record that is not a Modify with non-empty left and right lines is returned
  unchanged. A Modify record with non-empty left and right lines has both span fields
  set, and its kind, lines and line numbers are unchanged.
\<close>

theorem enhance_frame:
  "length (enhanceWithCharDiffs diffLines) = length diffLines
   \<and> (\<forall>i < length diffLines.
        (\<not> (type (diffLines ! i) = Modify \<and> truthy (leftLine (diffLines ! i))
              \<and> truthy (rightLine (diffLines ! i))) \<longrightarrow>
           enhanceWithCharDiffs diffLines ! i = diffLines ! i)
      \<and> (type (diffLines ! i) = Modify \<and> truthy (leftLine (diffLines ! i))
              \<and> truthy (rightLine (diffLines ! i)) \<longrightarrow>
           leftCharDiffs (enhanceWithCharDiffs diffLines ! i) \<noteq> None
         \<and> rightCharDiffs (enhanceWithCharDiffs diffLines ! i) \<noteq> None
         \<and> type (enhanceWithCharDiffs diffLines ! i) = type (diffLines ! i)
         \<and> leftLine (enhanceWithCharDiffs diffLines ! i) = leftLine (diffLines ! i)
         \<and> rightLine (enhanceWithCharDiffs diffLines ! i) = rightLine (diffLines ! i)
         \<and> leftLineNumber (enhanceWithCharDiffs diffLines ! i) = leftLineNumber (diffLines ! i)
         \<and> rightLineNumber (enhanceWithCharDiffs diffLines ! i)
             = rightLineNumber (diffLines ! i)))"
proof (intro conjI allI impI)
  show "length (enhanceWithCharDiffs diffLines) = length diffLines"
    by (simp add: enhanceWithCharDiffs_def)
next
  fix i assume "i < length diffLines"
    and "\<not> (type (diffLines ! i) = Modify \<and> truthy (leftLine (diffLines ! i))
              \<and> truthy (rightLine (diffLines ! i)))"
  then show "enhanceWithCharDiffs diffLines ! i = diffLines ! i"
    by (simp add: enhanceWithCharDiffs_def enhanceLine_skip)
next
  fix i assume i: "i < length diffLines"
    and m: "type (diffLines ! i) = Modify \<and> truthy (leftLine (diffLines ! i))
              \<and> truthy (rightLine (diffLines ! i))"
  have e: "enhanceWithCharDiffs diffLines ! i = enhanceLine (diffLines ! i)"
    using i by (simp add: enhanceWithCharDiffs_def)
  from m enhanceLine_reconstructs[of "diffLines ! i"]
  show "leftCharDiffs (enhanceWithCharDiffs diffLines ! i) \<noteq> None"
    and "rightCharDiffs (enhanceWithCharDiffs diffLines ! i) \<noteq> None"
    unfolding e by simp_all
  show "type (enhanceWithCharDiffs diffLines ! i) = type (diffLines ! i)"
    and "leftLine (enhanceWithCharDiffs diffLines ! i) = leftLine (diffLines ! i)"
    and "rightLine (enhanceWithCharDiffs diffLines ! i) = rightLine (diffLines ! i)"
    and "leftLineNumber (enhanceWithCharDiffs diffLines ! i) = leftLineNumber (diffLines ! i)"
    and "rightLineNumber (enhanceWithCharDiffs diffLines ! i) = rightLineNumber (diffLines ! i)"
    unfolding e using enhanceLine_frame[of "diffLines ! i"] by simp_all
qed

lemma frame_run:
  "computeDiff (str ''a\<newline>b'') (str ''a\<newline>c'') =
     [\<lparr> type = Equal, leftLine = Some (str ''a''), rightLine = Some (str ''a''),
        leftLineNumber = Some 1, rightLineNumber = Some 1,
        leftCharDiffs = None, rightCharDiffs = None \<rparr>,
      \<lparr> type = Modify, leftLine = Some (str ''b''), rightLine = Some (str ''c''),
        leftLineNumber = Some 2, rightLineNumber = Some 2,
        leftCharDiffs = None, rightCharDiffs = None \<rparr>]"
  by code_simp

lemma frame_truthy: "truthy (Some (str ''b''))" "truthy (Some (str ''c''))"
  by code_simp+

theorem enhance_frame_witness:
  "enhanceWithCharDiffs (computeDiff (str ''a\<newline>b'') (str ''a\<newline>c'')) ! 0
     = computeDiff (str ''a\<newline>b'') (str ''a\<newline>c'') ! 0
   \<and> leftCharDiffs (enhanceWithCharDiffs (computeDiff (str ''a\<newline>b'') (str ''a\<newline>c'')) ! 1)
       \<noteq> None
   \<and> rightCharDiffs (enhanceWithCharDiffs (computeDiff (str ''a\<newline>b'') (str ''a\<newline>c'')) ! 1)
       \<noteq> None"
proof -
  let ?ds = "computeDiff (str ''a\<newline>b'') (str ''a\<newline>c'')"
  have len: "0 < length ?ds" "1 < length ?ds" by (simp_all add: frame_run)
  have h0: "\<not> (type (?ds ! 0) = Modify \<and> truthy (leftLine (?ds ! 0)) \<and> truthy (rightLine (?ds ! 0)))"
    by (simp add: frame_run)
  have h1: "type (?ds ! 1) = Modify \<and> truthy (leftLine (?ds ! 1)) \<and> truthy (rightLine (?ds ! 1))"
    using frame_truthy by (simp add: frame_run)
  from enhance_frame[of ?ds] len h0 h1 show ?thesis by blast
qed

section \<open>Neighbouring spans\<close>

definition no_adjacent_same_kind :: "CharDiff list \<Rightarrow> bool" where
  "no_adjacent_same_kind sp = distinct_adj (map CharDiff.type sp)"

text \<open>
  Claim C6. In both span arrays returned by \<open>computeCharDiff\<close>, and so in every span
  array of a record of \<open>enhanceWithCharDiffs (computeDiff left right)\<close>, no two
  consecutive spans have the same kind.
\<close>

theorem spans_no_adjacent_same_kind:
  "no_adjacent_same_kind (fst (computeCharDiff l r))
   \<and> no_adjacent_same_kind (snd (computeCharDiff l r))
   \<and> (\<forall>d \<in> set (enhanceWithCharDiffs (computeDiff left right)). \<forall>sp.
        leftCharDiffs d = Some sp \<or> rightCharDiffs d = Some sp \<longrightarrow> no_adjacent_same_kind sp)"
proof (intro conjI ballI allI impI)
  show "no_adjacent_same_kind (fst (computeCharDiff l r))"
    and "no_adjacent_same_kind (snd (computeCharDiff l r))"
    by (simp_all add: no_adjacent_same_kind_def computeCharDiff_distinct_adj)
next
  fix d sp
  assume "d \<in> set (enhanceWithCharDiffs (computeDiff left right))"
    and sp: "leftCharDiffs d = Some sp \<or> rightCharDiffs d = Some sp"
  then obtain c where c: "c \<in> set (computeDiff left right)" and d: "d = enhanceLine c"
    by (auto simp: enhanceWithCharDiffs_def)
  from computeDiff_fresh_ok[of left right] c have fr: "fresh_ok c"
    by (simp add: list_all_iff)
  show "no_adjacent_same_kind sp"
  proof (cases "type c = Modify \<and> truthy (leftLine c) \<and> truthy (rightLine c)")
    case True
    then have "leftCharDiffs d = Some (fst (computeCharDiff (the (leftLine c)) (the (rightLine c))))"
      and "rightCharDiffs d = Some (snd (computeCharDiff (the (leftLine c)) (the (rightLine c))))"
      unfolding d by (simp_all add: enhanceLine_def Let_def)
    with sp show ?thesis
      by (auto simp: no_adjacent_same_kind_def computeCharDiff_distinct_adj)
  next
    case False
    then have "d = c" unfolding d by (rule enhanceLine_skip)
    with fr sp show ?thesis by (simp add: fresh_ok_def)
  qed
qed

theorem spans_no_adjacent_same_kind_witness:
  "no_adjacent_same_kind
     [\<lparr> CharDiff.type = CEqual, text' = str ''a '' \<rparr>, \<lparr> CharDiff.type = CDelete, text' = str ''b'' \<rparr>]"
proof -
  let ?out = "enhanceWithCharDiffs (computeDiff (str ''a b'') (str ''a c''))"
  have m: "?out ! 0 \<in> set ?out" by (simp add: token_run)
  have h: "leftCharDiffs (?out ! 0)
     = Some [\<lparr> CharDiff.type = CEqual, text' = str ''a '' \<rparr>, \<lparr> CharDiff.type = CDelete, text' = str ''b'' \<rparr>]"
    by (simp add: token_run)
  from spans_no_adjacent_same_kind[of "str ''a b''" "str ''a c''" "str ''a b''" "str ''a c''"] m h show ?thesis by blast
qed

end
